theory Spec2Isabelle
  imports Main "HOL-Library.Word"
begin

section \<open>Buffers and the buffer pool\<close>

text \<open>
  A byte is an 8-bit word. A \<^verbatim>\<open>bytes.Buffer\<close> is modelled by its unread contents and the
  capacity of its backing array. How far the standard library grows the backing array when
  a write does not fit is not part of this repository: it is the parameter \<open>g\<close> of every
  function that writes (\<open>g c n\<close> is the capacity chosen when capacity \<open>c\<close> must hold \<open>n\<close>
  bytes).
\<close>

type_synonym byte = "8 word"

type_synonym grow = "nat \<Rightarrow> nat \<Rightarrow> nat"

definition bufferSize :: nat where
  "bufferSize = 16384"

definition newline :: byte where
  "newline = 10"

record buffer =
  buf_data :: "byte list"
  buf_cap :: nat

definition buf_Len :: "buffer \<Rightarrow> nat" where
  "buf_Len b = length (buf_data b)"

definition buf_Cap :: "buffer \<Rightarrow> nat" where
  "buf_Cap b = buf_cap b"

definition buf_Write :: "grow \<Rightarrow> buffer \<Rightarrow> byte list \<Rightarrow> buffer" where
  "buf_Write g b p =
     b\<lparr>buf_data := buf_data b @ p,
       buf_cap := (if length (buf_data b) + length p \<le> buf_cap b then buf_cap b
                   else g (buf_cap b) (length (buf_data b) + length p))\<rparr>"

definition buf_Reset :: "buffer \<Rightarrow> buffer" where
  "buf_Reset b = b\<lparr>buf_data := []\<rparr>"

text \<open>
  \<^verbatim>\<open>bufPool\<close> is a \<^verbatim>\<open>sync.Pool\<close>: \<^verbatim>\<open>Get\<close> hands out a pooled buffer when there is one and
  calls \<^verbatim>\<open>New\<close> otherwise; \<^verbatim>\<open>Put\<close> adds a buffer. The pool is modelled as the list of the
  buffers it holds, most recently returned first. (A \<^verbatim>\<open>sync.Pool\<close> may hand out any buffer
  it holds, or drop one; the properties below ask of the pool only that every buffer in it
  has been reset.)
\<close>

type_synonym pool = "buffer list"

definition bufPool_New :: "grow \<Rightarrow> buffer" where
  "bufPool_New g = \<lparr>buf_data = [], buf_cap = g 0 (bufferSize * 2)\<rparr>"

definition bufPool_Get :: "grow \<Rightarrow> pool \<Rightarrow> buffer \<times> pool" where
  "bufPool_Get g p = (case p of [] \<Rightarrow> (bufPool_New g, []) | b # bs \<Rightarrow> (b, bs))"

definition bufPool_Put :: "buffer \<Rightarrow> pool \<Rightarrow> pool" where
  "bufPool_Put b p = b # p"

text \<open>The pool's invariant: every buffer it holds has length zero.\<close>

definition pool_reset :: "pool \<Rightarrow> bool" where
  "pool_reset p = list_all (\<lambda>b. buf_data b = []) p"

section \<open>The line framer: \<^verbatim>\<open>receive\<close>\<close>

text \<open>
  \<^verbatim>\<open>bytes.LastIndexByte(s, c)\<close>: the index of the last \<open>c\<close> in \<open>s\<close>, or \<open>-1\<close>.
\<close>

fun LastIndexByte :: "byte list \<Rightarrow> byte \<Rightarrow> int" where
  "LastIndexByte [] c = - 1"
| "LastIndexByte (x # xs) c =
     (let r = LastIndexByte xs c
      in if r \<noteq> - 1 then r + 1 else if x = c then 0 else - 1)"

text \<open>
  One call of \<^verbatim>\<open>conn.Read(buf)\<close> returns \<open>(n, err)\<close>: \<open>Read_ok w\<close> is \<open>err = nil\<close> with
  \<open>w = buf[:n]\<close>, \<open>Read_err w\<close> a non-nil error (end of stream, or the connection closed
  under the reader) with \<open>w = buf[:n]\<close>. An inbound connection is the list of the results
  of its successive reads; when the list is used up the next read never returns.

  The framer's state: the accumulation buffer \<^verbatim>\<open>stringbuf\<close>, the buffer pool, and the
  records this framer has sent on the channel \<^verbatim>\<open>out\<close>, oldest first. Sending on the
  channel is taken to succeed; logging and the deferred \<^verbatim>\<open>conn.Close()\<close> are left out.
\<close>

datatype read_result = Read_ok "byte list" | Read_err "byte list"

record framer =
  stringbuf :: buffer
  fpool :: pool
  out :: "buffer list"

text \<open>The body of the read loop after a read without error (lines 52 to 62).\<close>

definition receive_step :: "grow \<Rightarrow> framer \<Rightarrow> byte list \<Rightarrow> framer" where
  "receive_step g st w =
     (let lastNewlineIndex = LastIndexByte w newline
      in if lastNewlineIndex \<noteq> - 1 then
           let sent = buf_Write g (stringbuf st) (take (nat (lastNewlineIndex + 1)) w);
               (fresh, p) = bufPool_Get g (fpool st)
           in \<lparr>stringbuf = buf_Write g fresh (drop (nat (lastNewlineIndex + 1)) w),
               fpool = p,
               out = out st @ [sent]\<rparr>
         else st\<lparr>stringbuf := buf_Write g (stringbuf st) w\<rparr>)"

fun receive_loop :: "grow \<Rightarrow> framer \<Rightarrow> read_result list \<Rightarrow> framer option" where
  "receive_loop g st [] = None"
| "receive_loop g st (Read_err w # rs) = Some st"
| "receive_loop g st (Read_ok w # rs) = receive_loop g (receive_step g st w) rs"

definition receive_flush :: "framer \<Rightarrow> framer" where
  "receive_flush st =
     (if buf_Len (stringbuf st) > 0 then st\<lparr>out := out st @ [stringbuf st]\<rparr> else st)"

definition receive :: "grow \<Rightarrow> pool \<Rightarrow> read_result list \<Rightarrow> framer option" where
  "receive g p rs =
     (let (b, p') = bufPool_Get g p
      in map_option receive_flush
           (receive_loop g \<lparr>stringbuf = b, fpool = p', out = []\<rparr> rs))"

text \<open>The bytes a framer has taken in so far: the records sent, then the residual.\<close>

definition framed :: "framer \<Rightarrow> byte list" where
  "framed st = concat (map buf_data (out st)) @ buf_data (stringbuf st)"

section \<open>The connection manager: \<^verbatim>\<open>Worker\<close>\<close>

text \<open>
  Durations and clock readings are nanoseconds (\<^verbatim>\<open>time.Duration\<close> is a 64-bit count of
  nanoseconds). The backoff delay never exceeds 60 seconds before it is capped, so no
  product here leaves the 64-bit range and the model computes in \<open>int\<close>.

  An outbound connection is a handle. Whatever a worker does to the outside is recorded as
  an effect, in order: dialling a target, sleeping, closing a connection, setting a write
  deadline (relative to the moment it is set), a write that succeeded, a write that failed
  after \<open>n\<close> bytes.
\<close>

type_synonym conn = nat

type_synonym error = string

definition second :: int where
  "second = 1000000000"

definition minute :: int where
  "minute = 60 * second"

record Worker =
  w_id :: int
  w_targets :: "string list"
  w_target :: string
  w_targetIdx :: int
  w_conn :: "conn option"
  w_lastReconnect :: int

datatype effect =
    Dialed string
  | Slept int
  | Closed conn
  | Deadline conn int
  | Wrote conn "byte list"
  | WriteFailed conn "byte list" nat

datatype fault = Index_out_of_range | Nil_dereference | Intn_nonpositive | Makechan_size

text \<open>
  A method of the worker returns a value and leaves the worker changed (\<open>Ret\<close>), or
  panics (\<open>Panic\<close>); both carry the effects of the call. A method that loops is run
  against a finite script of what the outside answers; \<open>None\<close> is a call that has not
  returned when its script is used up.
\<close>

datatype 'a result = Ret 'a Worker "effect list" | Panic fault Worker "effect list"

fun effects :: "'a result \<Rightarrow> effect list" where
  "effects (Ret x w es) = es"
| "effects (Panic f w es) = es"

fun prepend :: "effect list \<Rightarrow> 'a result \<Rightarrow> 'a result" where
  "prepend es (Ret x w es') = Ret x w (es @ es')"
| "prepend es (Panic f w es') = Panic f w (es @ es')"

text \<open>
  The two contexts the program uses: \<^verbatim>\<open>context.TODO()\<close>, which is never cancelled, and the
  cancellable context of \<^verbatim>\<open>listenAndProxy\<close>. \<open>ctx_Err ctx cancelled\<close> is
  \<^verbatim>\<open>ctx.Err() != nil\<close> at a moment when the shutdown signal has (\<open>cancelled\<close>) or has not
  been given.
\<close>

datatype go_context = TODO | WithCancel

definition ctx_Err :: "go_context \<Rightarrow> bool \<Rightarrow> bool" where
  "ctx_Err ctx cancelled = (case ctx of TODO \<Rightarrow> False | WithCancel \<Rightarrow> cancelled)"

text \<open>
  \<^verbatim>\<open>w.targets[i]\<close> panics out of range. \<^verbatim>\<open>rand.Intn(n)\<close> panics for \<open>n \<le> 0\<close> and otherwise
  yields a value of \<open>[0, n)\<close>: the generator's raw output \<open>r\<close>, an input of the model,
  reduced to that range.
\<close>

definition index_targets :: "string list \<Rightarrow> int \<Rightarrow> fault + string" where
  "index_targets ts i =
     (if 0 \<le> i \<and> i < int (length ts) then Inr (ts ! nat i) else Inl Index_out_of_range)"

definition Intn :: "int \<Rightarrow> nat \<Rightarrow> fault + int" where
  "Intn n r = (if n \<le> 0 then Inl Intn_nonpositive else Inr (int r mod n))"

definition Close :: "Worker \<Rightarrow> Worker \<times> effect list" where
  "Close w = (case w_conn w of None \<Rightarrow> (w, []) | Some c \<Rightarrow> (w\<lparr>w_conn := None\<rparr>, [Closed c]))"

text \<open>
  One dial attempt of \<^verbatim>\<open>ConnectWithRetries\<close>: \<open>Dial_ok c now\<close> is a successful
  \<^verbatim>\<open>net.DialTimeout\<close> returning connection \<open>c\<close>, with \<open>now\<close> the reading of \<^verbatim>\<open>time.Now()\<close>
  that follows; \<open>Dial_fail e cancelled r\<close> is a dial failing with error \<open>e\<close>, with
  \<open>cancelled\<close> whether the shutdown signal has been given when \<^verbatim>\<open>ctx.Err()\<close> is read, and
  \<open>r\<close> the random generator's output for the \<^verbatim>\<open>rand.Intn\<close> that follows the sleep.
\<close>

datatype attempt = Dial_ok conn int | Dial_fail error bool nat

definition next_delay :: "int \<Rightarrow> int" where
  "next_delay delay = (let d = delay * 2 in if d > 30 * second then 30 * second else d)"

fun connect_loop ::
  "go_context \<Rightarrow> Worker \<Rightarrow> int \<Rightarrow> int \<Rightarrow> attempt list \<Rightarrow> error option result option" where
  "connect_loop ctx w delay targetIdx [] = None"
| "connect_loop ctx w delay targetIdx (a # as) =
     (case index_targets (w_targets w) targetIdx of
        Inl f \<Rightarrow> Some (Panic f w [])
      | Inr t \<Rightarrow>
          (let w1 = w\<lparr>w_target := t\<rparr>
           in case a of
                Dial_ok c now \<Rightarrow>
                  (let (w2, cl) = Close w1
                   in Some (Ret None (w2\<lparr>w_conn := Some c, w_lastReconnect := now\<rparr>)
                              (Dialed t # cl)))
              | Dial_fail e cancelled r \<Rightarrow>
                  if ctx_Err ctx cancelled then Some (Ret (Some e) w1 [Dialed t])
                  else (case Intn (int (length (w_targets w1))) r of
                          Inl f \<Rightarrow> Some (Panic f w1 [Dialed t, Slept delay])
                        | Inr i \<Rightarrow>
                            (case connect_loop ctx w1 (next_delay delay) i as of
                               None \<Rightarrow> None
                             | Some res \<Rightarrow> Some (prepend [Dialed t, Slept delay] res)))))"

definition ConnectWithRetries ::
  "go_context \<Rightarrow> Worker \<Rightarrow> attempt list \<Rightarrow> error option result option" where
  "ConnectWithRetries ctx w as = connect_loop ctx w (2 * second) (w_targetIdx w) as"

definition Reconnect ::
  "go_context \<Rightarrow> Worker \<Rightarrow> attempt list \<Rightarrow> error option result option" where
  "Reconnect ctx w as =
     (let (w1, cl) = Close w in map_option (prepend cl) (ConnectWithRetries ctx w1 as))"

text \<open>\<open>now\<close> is the clock reading \<^verbatim>\<open>time.Since\<close> takes.\<close>

definition ConnectIfNeeded ::
  "go_context \<Rightarrow> Worker \<Rightarrow> int \<Rightarrow> attempt list \<Rightarrow> error option result option" where
  "ConnectIfNeeded ctx w now as =
     (if w_conn w = None then ConnectWithRetries ctx w as
      else if now - w_lastReconnect w > 5 * minute then Reconnect ctx w as
      else Some (Ret None w []))"

text \<open>
  \<^verbatim>\<open>conn.Write\<close> either writes all of \<open>b\<close> (\<open>Write_ok\<close>) or fails with an error after \<open>n\<close>
  bytes. A nil \<^verbatim>\<open>w.conn\<close> makes \<^verbatim>\<open>Write\<close> panic at \<^verbatim>\<open>w.conn.SetDeadline\<close>.
\<close>

datatype write_result = Write_ok | Write_fail nat error

definition Write :: "Worker \<Rightarrow> byte list \<Rightarrow> write_result \<Rightarrow> (nat \<times> error option) result" where
  "Write w b wr =
     (case w_conn w of
        None \<Rightarrow> Panic Nil_dereference w []
      | Some c \<Rightarrow>
          (case wr of
             Write_ok \<Rightarrow> Ret (length b, None) w [Deadline c (30 * second), Wrote c b]
           | Write_fail n e \<Rightarrow> Ret (n, Some e) w [Deadline c (30 * second), WriteFailed c b n]))"

text \<open>
  One round of \<^verbatim>\<open>WriteWithRetries\<close>: the clock reading for \<^verbatim>\<open>ConnectIfNeeded\<close>, the dial
  attempts it may need, and the outcome of the write.
\<close>

datatype round = Round int "attempt list" write_result

fun WriteWithRetries ::
  "go_context \<Rightarrow> Worker \<Rightarrow> byte list \<Rightarrow> round list \<Rightarrow> (nat \<times> error option) result option" where
  "WriteWithRetries ctx w b [] = None"
| "WriteWithRetries ctx w b (Round now as wr # rs) =
     (case ConnectIfNeeded ctx w now as of
        None \<Rightarrow> None
      | Some (Panic f w1 es) \<Rightarrow> Some (Panic f w1 es)
      | Some (Ret discarded w1 es) \<Rightarrow>
          (case Write w1 b wr of
             Panic f w2 es2 \<Rightarrow> Some (Panic f w2 (es @ es2))
           | Ret (n, None) w2 es2 \<Rightarrow> Some (Ret (n, None) w2 (es @ es2))
           | Ret (n, Some e) w2 es2 \<Rightarrow>
               (let (w3, cl) = Close w2
                in map_option (prepend (es @ es2 @ cl)) (WriteWithRetries ctx w3 b rs))))"

section \<open>The worker's main loop: \<^verbatim>\<open>transmit\<close>\<close>

text \<open>
  What \<^verbatim>\<open>select\<close> picks in one turn of the loop: a tick of the one-second ticker, the
  context's done channel, or a record from the queue (with the script of the
  \<^verbatim>\<open>WriteWithRetries\<close> call that sends it). \<open>l_doneChan\<close> is false once \<^verbatim>\<open>doneChan\<close> is nil: a
  nil channel is never picked, and a \<open>Done\<close> of the script is then passed over.
\<close>

datatype select_event = Tick | Done | Recv buffer "round list"

record loop_state =
  l_w :: Worker
  l_exit :: bool
  l_doneChan :: bool
  l_idleCount :: int
  l_pool :: pool
  l_log :: "effect list"

text \<open>Lines 198 to 201: only small buffers go back to the pool.\<close>

definition release :: "buffer \<Rightarrow> pool \<Rightarrow> pool" where
  "release b p = (if buf_Cap b \<le> 1024 * 1024 then bufPool_Put (buf_Reset b) p else p)"

text \<open>
  A run of the loop against a script of turns: it has returned (with the turns left over),
  it has panicked, it waits in \<^verbatim>\<open>select\<close> at the end of the script (\<open>Parked\<close>), or a dial
  or write loop inside it has not returned (\<open>Stuck\<close>).
\<close>

datatype run =
    Exited loop_state "select_event list"
  | Crashed fault loop_state
  | Parked loop_state
  | Stuck loop_state

fun transmit_loop :: "loop_state \<Rightarrow> select_event list \<Rightarrow> run" where
  "transmit_loop st [] = Parked st"
| "transmit_loop st (Tick # evs) =
     (let st1 = st\<lparr>l_idleCount := l_idleCount st + 1\<rparr>
      in if l_exit st1 \<and> l_idleCount st1 \<ge> 5 then
           (let (w', cl) = Close (l_w st1)
            in Exited (st1\<lparr>l_w := w', l_log := l_log st1 @ cl\<rparr>) evs)
         else transmit_loop st1 evs)"
| "transmit_loop st (Done # evs) =
     (if l_doneChan st then transmit_loop (st\<lparr>l_exit := True, l_doneChan := False\<rparr>) evs
      else transmit_loop st evs)"
| "transmit_loop st (Recv b rs # evs) =
     (let st1 = st\<lparr>l_idleCount := 0\<rparr>
      in case WriteWithRetries TODO (l_w st1) (buf_data b) rs of
           None \<Rightarrow> Stuck st1
         | Some (Panic f w' es) \<Rightarrow> Crashed f (st1\<lparr>l_w := w', l_log := l_log st1 @ es\<rparr>)
         | Some (Ret n w' es) \<Rightarrow>
             transmit_loop
               (st1\<lparr>l_w := w', l_log := l_log st1 @ es, l_pool := release b (l_pool st1)\<rparr>) evs)"

definition transmit ::
  "go_context \<Rightarrow> int \<Rightarrow> pool \<Rightarrow> string list \<Rightarrow> int \<Rightarrow> attempt list \<Rightarrow> select_event list \<Rightarrow> run" where
  "transmit ctx worker p targets target as evs =
     (let w = \<lparr>w_id = worker, w_targets = targets, w_target = [], w_targetIdx = target,
               w_conn = None, w_lastReconnect = 0\<rparr>;
          st = \<lparr>l_w = w, l_exit = False, l_doneChan = (ctx = WithCancel), l_idleCount = 0,
                l_pool = p, l_log = []\<rparr>
      in case ConnectWithRetries ctx w as of
           None \<Rightarrow> Stuck st
         | Some (Panic f w' es) \<Rightarrow> Crashed f (st\<lparr>l_w := w', l_log := es\<rparr>)
         | Some (Ret (Some e) w' es) \<Rightarrow> Exited (st\<lparr>l_w := w', l_log := es\<rparr>) evs
         | Some (Ret None w' es) \<Rightarrow> transmit_loop (st\<lparr>l_w := w', l_log := es\<rparr>) evs)"

text \<open>
  Observers of a list of effects, and the backoff sleeps as the specification words them:
  doubling from two seconds, capped at thirty; \<open>backoff k\<close> is the sleep after the
  \<open>k\<close>-th failed dial, counted from zero.
\<close>

definition backoff :: "nat \<Rightarrow> int" where
  "backoff k = min (2 * 2 ^ k) 30 * second"

fun sleeps :: "effect list \<Rightarrow> int list" where
  "sleeps [] = []"
| "sleeps (Slept d # es) = d # sleeps es"
| "sleeps (e # es) = sleeps es"

fun dials :: "effect list \<Rightarrow> string list" where
  "dials [] = []"
| "dials (Dialed t # es) = t # dials es"
| "dials (e # es) = dials es"

fun closes :: "effect list \<Rightarrow> conn list" where
  "closes [] = []"
| "closes (Closed c # es) = c # closes es"
| "closes (e # es) = closes es"

text \<open>A worker for the examples: three targets, the second its primary, failed over to the third.\<close>

definition worker0 :: Worker where
  "worker0 = \<lparr>w_id = 1, w_targets = [''a:1'', ''b:2'', ''c:3''], w_target = ''c:3'',
              w_targetIdx = 1, w_conn = Some 4, w_lastReconnect = 1000\<rparr>"

text \<open>
  The idle counter after a script of turns, read off the script alone: a tick adds one, a
  record sets it back to zero. \<open>wrote\<close> lists the payloads of the successful writes among
  the effects.
\<close>

fun idle_of :: "int \<Rightarrow> select_event list \<Rightarrow> int" where
  "idle_of i [] = i"
| "idle_of i (Tick # evs) = idle_of (i + 1) evs"
| "idle_of i (Done # evs) = idle_of i evs"
| "idle_of i (Recv b rs # evs) = idle_of 0 evs"

fun wrote :: "effect list \<Rightarrow> byte list list" where
  "wrote [] = []"
| "wrote (Wrote c b # es) = b # wrote es"
| "wrote (e # es) = wrote es"

text \<open>
  A loop state for the examples: \<open>worker0\<close> connected, no signal yet, and a record whose
  buffer has a capacity of exactly 1 MiB.
\<close>

definition loop0 :: loop_state where
  "loop0 = \<lparr>l_w = worker0, l_exit = False, l_doneChan = True, l_idleCount = 0,
            l_pool = [], l_log = []\<rparr>"

definition buffer_1MiB :: buffer where
  "buffer_1MiB = \<lparr>buf_data = [0x61, 0x0A], buf_cap = 1048576\<rparr>"

section \<open>The coordinator: \<^verbatim>\<open>proxy\<close> and \<^verbatim>\<open>listenAndProxy\<close>\<close>

text \<open>
  Go's \<^verbatim>\<open>int\<close> is taken to be 64 bits wide: \<open>wrap64\<close> is the value a product wraps to.

  \<^verbatim>\<open>make(chan *bytes.Buffer, n)\<close> is the runtime's, not this repository's. It panics
  (\<^verbatim>\<open>makechan: size out of range\<close>) when \<open>n\<close> is negative, when \<open>n\<close> slots of 8 bytes (a
  pointer each) overflow a machine word, or when they exceed what the runtime grants the
  buffer of a channel. That last bound, in bytes, is the parameter \<open>limit\<close> (the runtime's
  \<^verbatim>\<open>maxAlloc - hchanSize\<close>, a machine word). Running out of memory below that bound is
  outside the model.

  The worker loop runs \<open>idx\<close> from \<open>0\<close> while \<^verbatim>\<open>idx < connections*len(targets)\<close>, and starts
  \<^verbatim>\<open>transmit(ctx, idx+1, outputChan, targets, idx % len(targets))\<close>: there \<open>idx\<close> is not
  negative and \<^verbatim>\<open>len(targets)\<close> is positive, where Go's \<^verbatim>\<open>%\<close> is \<open>mod\<close>, and \<open>idx + 1\<close> does not
  wrap. The queue is made first (line 206): when \<^verbatim>\<open>make\<close> panics no worker is started.
\<close>

definition wrap64 :: "int \<Rightarrow> int" where
  "wrap64 x = (x + 2 ^ 63) mod 2 ^ 64 - 2 ^ 63"

definition makechan :: "int \<Rightarrow> int \<Rightarrow> fault + int" where
  "makechan limit n =
     (if 2 ^ 64 \<le> 8 * n \<or> limit < 8 * n \<or> n < 0 then Inl Makechan_size else Inr n)"

record transmit_args =
  a_worker :: int
  a_target :: int

definition proxy_queue :: "int \<Rightarrow> string list \<Rightarrow> int \<Rightarrow> fault + int" where
  "proxy_queue limit targets connections =
     makechan limit (wrap64 (wrap64 (connections * int (length targets)) * 2))"

definition proxy_workers :: "string list \<Rightarrow> int \<Rightarrow> transmit_args list" where
  "proxy_workers targets connections =
     map (\<lambda>idx. \<lparr>a_worker = idx + 1, a_target = idx mod int (length targets)\<rparr>)
       [0 .. wrap64 (connections * int (length targets)) - 1]"

text \<open>What \<^verbatim>\<open>proxy\<close> has set up when it reaches the accept loop: the queue's capacity and the workers.\<close>

definition proxy_setup ::
  "int \<Rightarrow> string list \<Rightarrow> int \<Rightarrow> fault + (int \<times> transmit_args list)" where
  "proxy_setup limit targets connections =
     (case proxy_queue limit targets connections of
        Inl f \<Rightarrow> Inl f
      | Inr capacity \<Rightarrow> Inr (capacity, proxy_workers targets connections))"

text \<open>
  The accept loop runs until \<^verbatim>\<open>l.Accept()\<close> fails; each accepted connection gets a framer.
  Its result here: the connections accepted and the error that ended it. That error lives
  in the loop body's own \<^verbatim>\<open>err\<close> (declared by \<^verbatim>\<open>conn, err := l.Accept()\<close>); the \<^verbatim>\<open>err\<close> that
  \<^verbatim>\<open>proxy\<close> returns is the one declared before the loop, which nothing assigns.
  \<open>workers_exit\<close> says whether every worker returns, which is what \<^verbatim>\<open>wg.Wait()\<close> waits for.
\<close>

datatype accept_result = Accept_ok "read_result list" | Accept_err error

fun accept_loop :: "accept_result list \<Rightarrow> (read_result list list \<times> error) option" where
  "accept_loop [] = None"
| "accept_loop (Accept_err e # rs) = Some ([], e)"
| "accept_loop (Accept_ok c # rs) = map_option (\<lambda>(cs, e). (c # cs, e)) (accept_loop rs)"

datatype 'a outcome = Returns 'a | Panics fault | Blocks

definition proxy ::
  "int \<Rightarrow> string list \<Rightarrow> int \<Rightarrow> accept_result list \<Rightarrow> bool \<Rightarrow> error option outcome" where
  "proxy limit targets connections accepts workers_exit =
     (case proxy_setup limit targets connections of
        Inl f \<Rightarrow> Panics f
      | Inr (capacity, workers) \<Rightarrow>
          (let err = None
           in case accept_loop accepts of
                None \<Rightarrow> Blocks
              | Some (conns, accept_err) \<Rightarrow>
                  if workers = [] \<or> workers_exit then Returns err else Blocks))"

datatype listen_result = Listen_ok | Listen_err error

definition listenAndProxy ::
  "int \<Rightarrow> listen_result \<Rightarrow> string list \<Rightarrow> int \<Rightarrow> accept_result list \<Rightarrow> bool \<Rightarrow>
   error option outcome" where
  "listenAndProxy limit l targets connections accepts workers_exit =
     (case l of
        Listen_err e \<Rightarrow> Returns (Some e)
      | Listen_ok \<Rightarrow> proxy limit targets connections accepts workers_exit)"

section \<open>Properties of the line framer\<close>

lemma LastIndexByte_lower: "- 1 \<le> LastIndexByte w c"
  by (induction w) (auto simp: Let_def)

lemma LastIndexByte_absent: "LastIndexByte w c = - 1 \<longleftrightarrow> c \<notin> set w"
proof (induction w)
  case Nil
  show ?case by simp
next
  case (Cons x w)
  have "LastIndexByte w c + 1 \<noteq> - 1"
    using LastIndexByte_lower [of w c] by arith
  with Cons show ?case by (auto simp: Let_def)
qed

lemma LastIndexByte_last:
  "c \<notin> set post \<Longrightarrow> LastIndexByte (pre @ c # post) c = int (length pre)"
proof (induction pre)
  case Nil
  then show ?case by (simp add: LastIndexByte_absent Let_def)
next
  case (Cons x pre)
  then show ?case by (simp add: Let_def)
qed

lemma split_at_last:
  "c \<in> set w \<Longrightarrow> \<exists>pre post. w = pre @ c # post \<and> c \<notin> set post"
  using split_list_last by fastforce


lemma bufPool_Get_reset:
  "pool_reset p \<Longrightarrow> buf_data (fst (bufPool_Get g p)) = [] \<and> pool_reset (snd (bufPool_Get g p))"
  by (cases p) (simp_all add: bufPool_Get_def bufPool_New_def pool_reset_def)

lemma buf_Write_data: "buf_data (buf_Write g b p) = buf_data b @ p"
  by (simp add: buf_Write_def)

lemma receive_step_newline_eq:
  assumes "newline \<notin> set post"
  shows "receive_step g st (pre @ newline # post) =
           \<lparr>stringbuf = buf_Write g (fst (bufPool_Get g (fpool st))) post,
            fpool = snd (bufPool_Get g (fpool st)),
            out = out st @ [buf_Write g (stringbuf st) (pre @ [newline])]\<rparr>"
proof -
  have i: "LastIndexByte (pre @ newline # post) newline = int (length pre)"
    using assms by (rule LastIndexByte_last)
  have n: "nat (int (length pre) + 1) = Suc (length pre)" by simp
  show ?thesis
    by (simp add: receive_step_def i Let_def n split: prod.split del: of_nat_add)
qed

lemma receive_step_newline:
  assumes "newline \<notin> set post" and "pool_reset (fpool st)"
  shows "out (receive_step g st (pre @ newline # post)) =
           out st @ [buf_Write g (stringbuf st) (pre @ [newline])]"
    and "buf_data (stringbuf (receive_step g st (pre @ newline # post))) = post"
    and "pool_reset (fpool (receive_step g st (pre @ newline # post)))"
  using bufPool_Get_reset [OF assms(2), of g]
  by (simp_all add: receive_step_newline_eq [OF assms(1)] buf_Write_data)

lemma receive_step_no_newline:
  assumes "newline \<notin> set w"
  shows "receive_step g st w = st\<lparr>stringbuf := buf_Write g (stringbuf st) w\<rparr>"
proof -
  have "LastIndexByte w newline = - 1"
    using assms by (simp add: LastIndexByte_absent)
  then show ?thesis by (simp add: receive_step_def)
qed

lemma receive_step_framed:
  assumes "pool_reset (fpool st)"
  shows "framed (receive_step g st w) = framed st @ w \<and> pool_reset (fpool (receive_step g st w))"
proof (cases "newline \<in> set w")
  case True
  from split_at_last [OF True]
  obtain pre post where w: "w = pre @ newline # post" and post: "newline \<notin> set post"
    by (elim exE conjE)
  show ?thesis
    unfolding w framed_def
    using receive_step_newline [OF post assms, of g pre]
    by (simp add: buf_Write_data)
next
  case False
  then show ?thesis
    using assms by (simp add: receive_step_no_newline framed_def buf_Write_data)
qed

lemma receive_loop_framed:
  "pool_reset (fpool st) \<Longrightarrow>
   \<exists>st'. receive_loop g st (map Read_ok ws @ Read_err e # rest) = Some st' \<and>
         framed st' = framed st @ concat ws"
proof (induction ws arbitrary: st)
  case Nil
  then show ?case by simp
next
  case (Cons w ws)
  from receive_step_framed [OF Cons.prems, of g w]
  have f: "framed (receive_step g st w) = framed st @ w"
    and p: "pool_reset (fpool (receive_step g st w))" by simp_all
  from Cons.IH [OF p] show ?case by (simp add: f)
qed

lemma framed_flush: "concat (map buf_data (out (receive_flush st))) = framed st"
  by (simp add: receive_flush_def framed_def buf_Len_def)

text \<open>
  Claim C1. For an inbound connection whose reads succeed until a clean close (a read of
  no bytes with an error), \<^verbatim>\<open>receive\<close> returns, and the concatenation of the records it
  sent equals the concatenation of the windows read, byte for byte and in order.
\<close>

theorem receive_concat:
  assumes "pool_reset p"
  shows "\<exists>st. receive g p (map Read_ok ws @ Read_err [] # rest) = Some st \<and>
              concat (map buf_data (out st)) = concat ws"
proof -
  obtain b p' where get: "bufPool_Get g p = (b, p')"
    by (cases "bufPool_Get g p")
  from bufPool_Get_reset [OF assms, of g] get
  have b: "buf_data b = []" and p': "pool_reset p'" by simp_all
  let ?st = "\<lparr>stringbuf = b, fpool = p', out = []\<rparr>"
  have "pool_reset (fpool ?st)" by (simp add: p')
  from receive_loop_framed [OF this, of g ws "[]" rest]
  obtain st' where l: "receive_loop g ?st (map Read_ok ws @ Read_err [] # rest) = Some st'"
    and f: "framed st' = framed ?st @ concat ws" by blast
  have "framed ?st = []" by (simp add: framed_def b)
  with f have "concat (map buf_data (out (receive_flush st'))) = concat ws"
    by (simp add: framed_flush)
  moreover have "receive g p (map Read_ok ws @ Read_err [] # rest) = Some (receive_flush st')"
    by (simp add: receive_def get l)
  ultimately show ?thesis by blast
qed


text \<open>
  Claim C2. For every read window: if it contains a newline, the framer appends the bytes
  up to and including the last newline to the accumulation buffer, sends that buffer as one
  record, and goes on with a fresh buffer holding exactly the bytes after that newline; if
  it contains no newline, the whole window is appended and nothing is sent. In particular
  the window \<^verbatim>\<open>"a\nb\nc"\<close> on an empty residual sends \<^verbatim>\<open>"a\nb\n"\<close> and leaves \<^verbatim>\<open>"c"\<close>, and
  the window \<^verbatim>\<open>"d\n"\<close> that follows sends \<^verbatim>\<open>"cd\n"\<close>. (The pool holds reset buffers only, which is what
  \<^verbatim>\<open>transmit\<close> puts there.)
\<close>

theorem receive_step_window:
  assumes "pool_reset (fpool st)"
  shows "(newline \<in> set w \<longrightarrow>
            (\<exists>pre post. w = pre @ newline # post \<and> newline \<notin> set post \<and>
               map buf_data (out (receive_step g st w)) =
                 map buf_data (out st) @ [buf_data (stringbuf st) @ pre @ [newline]] \<and>
               buf_data (stringbuf (receive_step g st w)) = post)) \<and>
         (newline \<notin> set w \<longrightarrow>
            out (receive_step g st w) = out st \<and>
            buf_data (stringbuf (receive_step g st w)) = buf_data (stringbuf st) @ w) \<and>
         (buf_data (stringbuf st) = [] \<longrightarrow>
            (let st1 = receive_step g st [0x61, 0x0A, 0x62, 0x0A, 0x63];
                 st2 = receive_step g st1 [0x64, 0x0A]
             in map buf_data (out st1) = map buf_data (out st) @ [[0x61, 0x0A, 0x62, 0x0A]] \<and>
                buf_data (stringbuf st1) = [0x63] \<and>
                map buf_data (out st2) = map buf_data (out st1) @ [[0x63, 0x64, 0x0A]] \<and>
                buf_data (stringbuf st2) = []))"
proof -
  have A: "\<exists>pre post. w = pre @ newline # post \<and> newline \<notin> set post \<and>
          map buf_data (out (receive_step g st w)) =
            map buf_data (out st) @ [buf_data (stringbuf st) @ pre @ [newline]] \<and>
          buf_data (stringbuf (receive_step g st w)) = post"
    if "newline \<in> set w"
  proof -
    from split_at_last [OF that]
    obtain pre post where w: "w = pre @ newline # post" and post: "newline \<notin> set post"
      by (elim exE conjE)
    from receive_step_newline [OF post assms, of g pre]
    have "map buf_data (out (receive_step g st w)) =
            map buf_data (out st) @ [buf_data (stringbuf st) @ pre @ [newline]]"
      and "buf_data (stringbuf (receive_step g st w)) = post"
      by (simp_all add: w buf_Write_data)
    with w post show ?thesis
      by (intro exI [of _ pre] exI [of _ post]) simp
  qed
  have B: "out (receive_step g st w) = out st \<and>
      buf_data (stringbuf (receive_step g st w)) = buf_data (stringbuf st) @ w"
    if "newline \<notin> set w"
    using that by (simp add: receive_step_no_newline buf_Write_data)
  have C: "let st1 = receive_step g st [0x61, 0x0A, 0x62, 0x0A, 0x63];
            st2 = receive_step g st1 [0x64, 0x0A]
        in map buf_data (out st1) = map buf_data (out st) @ [[0x61, 0x0A, 0x62, 0x0A]] \<and>
           buf_data (stringbuf st1) = [0x63] \<and>
           map buf_data (out st2) = map buf_data (out st1) @ [[0x63, 0x64, 0x0A]] \<and>
           buf_data (stringbuf st2) = []"
    if e: "buf_data (stringbuf st) = []"
  proof -
    let ?st1 = "receive_step g st [0x61, 0x0A, 0x62, 0x0A, 0x63]"
    let ?st2 = "receive_step g ?st1 [0x64, 0x0A]"
    have n1: "newline \<notin> set [0x63 :: byte]" by (simp add: newline_def)
    have n2: "newline \<notin> set ([] :: byte list)" by simp
    from receive_step_newline [OF n1 assms, of g "[0x61, 0x0A, 0x62]"]
    have o1: "map buf_data (out ?st1) = map buf_data (out st) @ [[0x61, 0x0A, 0x62, 0x0A]]"
      and s1: "buf_data (stringbuf ?st1) = [0x63]"
      and p1: "pool_reset (fpool ?st1)"
      by (simp_all add: newline_def buf_Write_data e)
    from receive_step_newline [OF n2 p1, of g "[0x64]"]
    have o2: "map buf_data (out ?st2) = map buf_data (out ?st1) @ [[0x63, 0x64, 0x0A]]"
      and s2: "buf_data (stringbuf ?st2) = []"
      by (simp_all add: newline_def buf_Write_data s1)
    show ?thesis
      unfolding Let_def using o1 s1 o2 s2 by (intro conjI)
  qed
  show ?thesis
    apply (rule conjI)
     apply (rule impI)
     apply (erule A)
    apply (rule conjI)
     apply (rule impI)
     apply (erule B)
    apply (rule impI)
    apply (erule C)
    done
qed

theorem receive_step_window_witness:
  "pool_reset [] \<and>
   (\<exists>pre post. [0x61, 0x0A, 0x62, 0x0A, 0x63] = pre @ newline # post \<and> newline \<notin> set post \<and>
      map buf_data (out (receive_step (\<lambda>c n. 2 * c + n)
          \<lparr>stringbuf = \<lparr>buf_data = [0x7A], buf_cap = 32768\<rparr>, fpool = [], out = []\<rparr>
          [0x61, 0x0A, 0x62, 0x0A, 0x63])) = [[0x7A] @ pre @ [newline]] \<and>
      buf_data (stringbuf (receive_step (\<lambda>c n. 2 * c + n)
          \<lparr>stringbuf = \<lparr>buf_data = [0x7A], buf_cap = 32768\<rparr>, fpool = [], out = []\<rparr>
          [0x61, 0x0A, 0x62, 0x0A, 0x63])) = post) \<and>
   out (receive_step (\<lambda>c n. 2 * c + n)
          \<lparr>stringbuf = \<lparr>buf_data = [0x7A], buf_cap = 32768\<rparr>, fpool = [], out = []\<rparr>
          [0x61, 0x62]) = [] \<and>
   buf_data (stringbuf (receive_step (\<lambda>c n. 2 * c + n)
          \<lparr>stringbuf = \<lparr>buf_data = [0x7A], buf_cap = 32768\<rparr>, fpool = [], out = []\<rparr>
          [0x61, 0x62])) = [0x7A, 0x61, 0x62]"
proof -
  let ?st = "\<lparr>stringbuf = \<lparr>buf_data = [0x7A], buf_cap = 32768\<rparr>, fpool = [], out = []\<rparr>"
  have p0: "pool_reset []"
    by (simp add: pool_reset_def)
  then have p: "pool_reset (fpool ?st)"
    by simp
  have n: "newline \<in> set [0x61, 0x0A, 0x62, 0x0A, 0x63]"
    by (simp add: newline_def)
  have m: "newline \<notin> set [0x61, 0x62]"
    by (simp add: newline_def)
  note yes = receive_step_window [OF p, of "[0x61, 0x0A, 0x62, 0x0A, 0x63]" "\<lambda>c n. 2 * c + n",
      THEN conjunct1, THEN mp, OF n]
  note no = receive_step_window [OF p, of "[0x61, 0x62]" "\<lambda>c n. 2 * c + n",
      THEN conjunct2, THEN conjunct1, THEN mp, OF m]
  from yes no p0 show ?thesis
    by (simp only: framer.select_convs buffer.select_convs list.map append_Nil append_Cons)
qed

theorem receive_concat_witness:
  "pool_reset [\<lparr>buf_data = [], buf_cap = 40000\<rparr>] \<and>
   (\<exists>st. receive (\<lambda>c n. 2 * c + n) [\<lparr>buf_data = [], buf_cap = 40000\<rparr>]
            (map Read_ok [[0x61, 0x0A, 0x62, 0x0A, 0x63], [0x64, 0x0A], [0x65]] @ Read_err [] # [])
          = Some st \<and>
        concat (map buf_data (out st)) =
          concat [[0x61, 0x0A, 0x62, 0x0A, 0x63], [0x64, 0x0A], [0x65]])"
proof -
  have p: "pool_reset [\<lparr>buf_data = [], buf_cap = 40000\<rparr>]"
    by (simp add: pool_reset_def)
  from receive_concat [OF p] p show ?thesis by (intro conjI)
qed

lemma receive_step_out:
  assumes "\<forall>b \<in> set (out st). buf_data b \<noteq> [] \<and> last (buf_data b) = newline"
  shows "\<forall>b \<in> set (out (receive_step g st w)). buf_data b \<noteq> [] \<and> last (buf_data b) = newline"
proof (cases "newline \<in> set w")
  case False
  then show ?thesis using assms by (simp add: receive_step_no_newline)
next
  case True
  from split_at_last [OF True]
  obtain pre post where w: "w = pre @ newline # post" and post: "newline \<notin> set post"
    by (elim exE conjE)
  have "out (receive_step g st w) = out st @ [buf_Write g (stringbuf st) (pre @ [newline])]"
    unfolding w by (simp add: receive_step_newline_eq [OF post])
  then show ?thesis using assms by (simp add: buf_Write_data)
qed

lemma receive_loop_out:
  "\<forall>b \<in> set (out st). buf_data b \<noteq> [] \<and> last (buf_data b) = newline \<Longrightarrow>
   receive_loop g st rs = Some st' \<Longrightarrow>
   \<forall>b \<in> set (out st'). buf_data b \<noteq> [] \<and> last (buf_data b) = newline"
proof (induction rs arbitrary: st)
  case Nil
  then show ?case by simp
next
  case (Cons r rs)
  show ?case
  proof (cases r)
    case (Read_ok w)
    with Cons.prems(2) have "receive_loop g (receive_step g st w) rs = Some st'" by simp
    with Cons.IH [OF receive_step_out [OF Cons.prems(1)]] show ?thesis .
  next
    case (Read_err w)
    with Cons.prems show ?thesis by simp
  qed
qed

text \<open>
  Claim C6. Whenever \<^verbatim>\<open>receive\<close> returns: every record sent during the read loop is
  non-empty and ends with a newline; after the loop the residual buffer is sent as a last
  record if and only if it is non-empty; and every record sent is non-empty.
\<close>

theorem receive_records:
  assumes "receive g p rs = Some st"
  shows "\<exists>st'. receive_loop g \<lparr>stringbuf = fst (bufPool_Get g p),
                                fpool = snd (bufPool_Get g p), out = []\<rparr> rs = Some st' \<and>
           (\<forall>b \<in> set (out st'). buf_data b \<noteq> [] \<and> last (buf_data b) = newline) \<and>
           out st = (if buf_data (stringbuf st') \<noteq> [] then out st' @ [stringbuf st'] else out st') \<and>
           (\<forall>b \<in> set (out st). buf_data b \<noteq> [])"
proof -
  let ?st0 = "\<lparr>stringbuf = fst (bufPool_Get g p), fpool = snd (bufPool_Get g p), out = []\<rparr>"
  from assms obtain st' where l: "receive_loop g ?st0 rs = Some st'" and st: "st = receive_flush st'"
    by (auto simp: receive_def split: prod.splits)
  have "\<forall>b \<in> set (out ?st0). buf_data b \<noteq> [] \<and> last (buf_data b) = newline" by simp
  from receive_loop_out [OF this l]
  have inv: "\<forall>b \<in> set (out st'). buf_data b \<noteq> [] \<and> last (buf_data b) = newline" .
  have o: "out st = (if buf_data (stringbuf st') \<noteq> [] then out st' @ [stringbuf st'] else out st')"
    by (simp add: st receive_flush_def buf_Len_def)
  have "\<forall>b \<in> set (out st). buf_data b \<noteq> []"
    using inv by (auto simp: o)
  with l inv o show ?thesis by (intro exI [of _ st'] conjI)
qed


theorem receive_records_witness:
  "receive (\<lambda>c n. 2 * c + n) [] [Read_ok [0x61, 0x0A, 0x62], Read_ok [0x0A, 0x63], Read_err []] =
     Some \<lparr>stringbuf = \<lparr>buf_data = [0x63], buf_cap = 32768\<rparr>, fpool = [],
           out = [\<lparr>buf_data = [0x61, 0x0A], buf_cap = 32768\<rparr>,
                  \<lparr>buf_data = [0x62, 0x0A], buf_cap = 32768\<rparr>,
                  \<lparr>buf_data = [0x63], buf_cap = 32768\<rparr>]\<rparr> \<and>
   (\<exists>st'. receive_loop (\<lambda>c n. 2 * c + n)
            \<lparr>stringbuf = fst (bufPool_Get (\<lambda>c n. 2 * c + n) []),
             fpool = snd (bufPool_Get (\<lambda>c n. 2 * c + n) []), out = []\<rparr>
            [Read_ok [0x61, 0x0A, 0x62], Read_ok [0x0A, 0x63], Read_err []] = Some st' \<and>
      out \<lparr>stringbuf = \<lparr>buf_data = [0x63], buf_cap = 32768\<rparr>, fpool = [],
           out = [\<lparr>buf_data = [0x61, 0x0A], buf_cap = 32768\<rparr>,
                  \<lparr>buf_data = [0x62, 0x0A], buf_cap = 32768\<rparr>,
                  \<lparr>buf_data = [0x63], buf_cap = 32768\<rparr>]\<rparr> =
        (if buf_data (stringbuf st') \<noteq> [] then out st' @ [stringbuf st'] else out st'))"
proof -
  have e: "receive (\<lambda>c n. 2 * c + n) [] [Read_ok [0x61, 0x0A, 0x62], Read_ok [0x0A, 0x63], Read_err []] =
     Some \<lparr>stringbuf = \<lparr>buf_data = [0x63], buf_cap = 32768\<rparr>, fpool = [],
           out = [\<lparr>buf_data = [0x61, 0x0A], buf_cap = 32768\<rparr>,
                  \<lparr>buf_data = [0x62, 0x0A], buf_cap = 32768\<rparr>,
                  \<lparr>buf_data = [0x63], buf_cap = 32768\<rparr>]\<rparr>"
    by (simp add: receive_def receive_step_def receive_flush_def bufPool_Get_def bufPool_New_def
        buf_Write_def buf_Len_def bufferSize_def newline_def Let_def)
  from receive_records [OF e] obtain st' where
    "receive_loop (\<lambda>c n. 2 * c + n)
            \<lparr>stringbuf = fst (bufPool_Get (\<lambda>c n. 2 * c + n) []),
             fpool = snd (bufPool_Get (\<lambda>c n. 2 * c + n) []), out = []\<rparr>
            [Read_ok [0x61, 0x0A, 0x62], Read_ok [0x0A, 0x63], Read_err []] = Some st'"
    and "out \<lparr>stringbuf = \<lparr>buf_data = [0x63], buf_cap = 32768\<rparr>, fpool = [],
           out = [\<lparr>buf_data = [0x61, 0x0A], buf_cap = 32768\<rparr>,
                  \<lparr>buf_data = [0x62, 0x0A], buf_cap = 32768\<rparr>,
                  \<lparr>buf_data = [0x63], buf_cap = 32768\<rparr>]\<rparr> =
        (if buf_data (stringbuf st') \<noteq> [] then out st' @ [stringbuf st'] else out st')"
    by (elim exE conjE)
  with e show ?thesis by (intro conjI exI [of _ st'])
qed

lemma closes_append: "closes (xs @ ys) = closes xs @ closes ys"
  by (induction xs rule: closes.induct) simp_all

section \<open>Properties of the connection manager\<close>

lemma sleeps_append: "sleeps (xs @ ys) = sleeps xs @ sleeps ys"
  by (induction xs rule: sleeps.induct) simp_all

lemma dials_append: "dials (xs @ ys) = dials xs @ dials ys"
  by (induction xs rule: dials.induct) simp_all

lemma effects_prepend: "effects (prepend es r) = es @ effects r"
  by (cases r) simp_all

lemma second_pos: "0 < second"
  by (simp add: second_def)

lemma backoff_small: "k < 4 \<Longrightarrow> backoff k = 2 * 2 ^ k * second"
proof -
  assume "k < 4"
  then have "k = 0 \<or> k = 1 \<or> k = 2 \<or> k = 3" by arith
  then show ?thesis by (auto simp: backoff_def)
qed

lemma backoff_large: "4 \<le> k \<Longrightarrow> backoff k = 30 * second"
proof -
  assume "4 \<le> k"
  then have "(2::int) ^ 4 \<le> 2 ^ k" by (intro power_increasing) simp_all
  then have "(30::int) \<le> 2 * 2 ^ k" by simp
  then show ?thesis by (simp add: backoff_def min_def)
qed

lemma next_delay_backoff: "next_delay (backoff k) = backoff (Suc k)"
proof (cases "k < 3")
  case True
  then have "k = 0 \<or> k = 1 \<or> k = 2" by arith
  then show ?thesis
    using second_pos by (auto simp: backoff_small next_delay_def Let_def)
next
  case False
  show ?thesis
  proof (cases "k = 3")
    case True
    then show ?thesis
      using second_pos by (simp add: backoff_small backoff_large next_delay_def Let_def)
  next
    case False
    with \<open>\<not> k < 3\<close> have "4 \<le> k" by arith
    then show ?thesis
      using second_pos by (simp add: backoff_large next_delay_def Let_def)
  qed
qed

lemma backoff_values:
  "map backoff [0 ..< 7] =
     [2 * second, 4 * second, 8 * second, 16 * second, 30 * second, 30 * second, 30 * second]"
  by (simp add: backoff_def upt_conv_Cons)

lemma Close_fields:
  "w_targets (fst (Close w)) = w_targets w"
  "w_targetIdx (fst (Close w)) = w_targetIdx w"
  "w_target (fst (Close w)) = w_target w"
  "w_conn (fst (Close w)) = None"
  "sleeps (snd (Close w)) = []"
  "dials (snd (Close w)) = []"
  by (simp_all add: Close_def split: option.split)

text \<open>Any run of the dial loop that ends has slept the backoff sequence, from its start.\<close>

lemma connect_loop_sleeps:
  "connect_loop ctx w (backoff k) i as = Some r \<Longrightarrow>
   \<exists>n. sleeps (effects r) = map backoff [k ..< k + n]"
proof (induction as arbitrary: w k i r)
  case Nil
  then show ?case by simp
next
  case (Cons a as)
  show ?case
  proof (cases "index_targets (w_targets w) i")
    case (Inl f)
    with Cons.prems have "sleeps (effects r) = []" by auto
    then have "sleeps (effects r) = map backoff [k ..< k + 0]" by simp
    then show ?thesis by (rule exI)
  next
    case (Inr t)
    show ?thesis
    proof (cases a)
      case (Dial_ok c now)
      with Cons.prems Inr have "sleeps (effects r) = []"
        by (auto simp: Close_def Let_def split: option.splits)
      then have "sleeps (effects r) = map backoff [k ..< k + 0]" by simp
      then show ?thesis by (rule exI)
    next
      case (Dial_fail e cancelled x)
      show ?thesis
      proof (cases "ctx_Err ctx cancelled")
        case True
        with Cons.prems Inr Dial_fail have "sleeps (effects r) = []"
          by (auto simp: Let_def)
        then have "sleeps (effects r) = map backoff [k ..< k + 0]" by simp
        then show ?thesis by (rule exI)
      next
        case False
        show ?thesis
        proof (cases "Intn (int (length (w_targets w))) x")
          case (Inl f)
          with Cons.prems Inr Dial_fail False have "sleeps (effects r) = [backoff k]"
            by (auto simp: Let_def)
          then have "sleeps (effects r) = map backoff [k ..< k + 1]" by simp
          then show ?thesis by (rule exI)
        next
          case (Inr j)
          with Cons.prems \<open>index_targets (w_targets w) i = Inr t\<close> Dial_fail False
          obtain r' where
            r': "connect_loop ctx (w\<lparr>w_target := t\<rparr>) (backoff (Suc k)) j as = Some r'"
            and r: "r = prepend [Dialed t, Slept (backoff k)] r'"
            by (auto simp: next_delay_backoff Let_def split: option.splits)
          from Cons.IH [OF r']
          obtain n where ih: "sleeps (effects r') = map backoff [Suc k ..< Suc k + n]"
            by (elim exE)
          have "[k ..< k + Suc n] = k # [Suc k ..< Suc k + n]"
            by (subst upt_rec) simp
          then have "backoff k # sleeps (effects r') = map backoff [k ..< k + Suc n]"
            using ih by simp
          moreover have "sleeps (effects r) = backoff k # sleeps (effects r')"
            by (simp add: r effects_prepend)
          ultimately have "sleeps (effects r) = map backoff [k ..< k + Suc n]"
            by simp
          then show ?thesis by (rule exI)
        qed
      qed
    qed
  qed
qed

lemma upt_shift: "[k ..< k + Suc n] = k # [Suc k ..< Suc k + n]"
  by (subst upt_rec) simp

lemma ctx_Err_False: "\<not> ctx_Err ctx False"
  by (cases ctx) (simp_all add: ctx_Err_def)

lemma ctx_Err_TODO: "\<not> ctx_Err TODO cancelled"
  by (simp add: ctx_Err_def)

lemma index_targets_ok:
  "0 \<le> i \<Longrightarrow> i < int (length ts) \<Longrightarrow> index_targets ts i = Inr (ts ! nat i)"
  by (simp add: index_targets_def)

lemma Intn_ok: "0 < n \<Longrightarrow> Intn n r = Inr (int r mod n)"
  by (simp add: Intn_def)

lemma connect_loop_ok:
  assumes "0 \<le> i" and "i < int (length (w_targets w))"
  shows "connect_loop ctx w d i (Dial_ok c now # rest) =
           Some (Ret None (w\<lparr>w_target := w_targets w ! nat i, w_conn := Some c,
                             w_lastReconnect := now\<rparr>)
                   (Dialed (w_targets w ! nat i) # snd (Close w)))"
  using assms by (simp add: index_targets_ok Close_def Let_def split: option.split)

lemma connect_loop_fail:
  assumes "0 \<le> i" and "i < int (length (w_targets w))" and "\<not> ctx_Err ctx cancelled"
  shows "connect_loop ctx w d i (Dial_fail e cancelled r # as) =
           map_option (prepend [Dialed (w_targets w ! nat i), Slept d])
             (connect_loop ctx (w\<lparr>w_target := w_targets w ! nat i\<rparr>) (next_delay d)
                (int r mod int (length (w_targets w))) as)"
proof -
  from assms(1,2) have "0 < int (length (w_targets w))" by arith
  then have "Intn (int (length (w_targets w))) r = Inr (int r mod int (length (w_targets w)))"
    by (rule Intn_ok)
  with assms show ?thesis
    by (simp add: index_targets_ok Let_def split: option.split)
qed

lemma connect_loop_cancelled:
  assumes "0 \<le> i" and "i < int (length (w_targets w))" and "ctx_Err ctx cancelled"
  shows "connect_loop ctx w d i (Dial_fail e cancelled r # as) =
           Some (Ret (Some e) (w\<lparr>w_target := w_targets w ! nat i\<rparr>)
                   [Dialed (w_targets w ! nat i)])"
  using assms by (simp add: index_targets_ok Let_def)

declare connect_loop.simps(2) [simp del]

text \<open>
  Failed attempts without cancellation, then a successful dial: what the loop returns,
  what it slept, which targets it dialled, and what it closed.
\<close>

lemma connect_loop_fails_then_ok:
  assumes "0 \<le> i" and "i < int (length (w_targets w))"
  shows "\<exists>w' es. connect_loop ctx w (backoff k) i
                    (map (\<lambda>(e, r). Dial_fail e False r) fs @ Dial_ok c now # rest) =
                  Some (Ret None w' es) \<and>
           sleeps es = map backoff [k ..< k + length fs] \<and>
           dials es = map (\<lambda>j. w_targets w ! nat j)
                        (i # map (\<lambda>(e, r). int r mod int (length (w_targets w))) fs) \<and>
           closes es = (case w_conn w of None \<Rightarrow> [] | Some c0 \<Rightarrow> [c0]) \<and>
           take 1 es = [Dialed (w_targets w ! nat i)] \<and>
           w' = w\<lparr>w_target := last (dials es), w_conn := Some c, w_lastReconnect := now\<rparr>"
  using assms
proof (induction fs arbitrary: w k i)
  case Nil
  then show ?case
    by (simp add: connect_loop_ok Close_def split: option.split)
next
  case (Cons f fs)
  obtain e r where f: "f = (e, r)" by (cases f)
  let ?n = "int (length (w_targets w))"
  let ?t = "w_targets w ! nat i"
  let ?w1 = "w\<lparr>w_target := ?t\<rparr>"
  let ?j = "int r mod ?n"
  from Cons.prems have n: "0 < ?n" by arith
  then have j: "0 \<le> ?j" "?j < int (length (w_targets ?w1))" by simp_all
  from Cons.IH [OF j, of "Suc k"]
  obtain w' es where
    run: "connect_loop ctx ?w1 (backoff (Suc k)) ?j
            (map (\<lambda>(e, r). Dial_fail e False r) fs @ Dial_ok c now # rest) = Some (Ret None w' es)"
    and sl: "sleeps es = map backoff [Suc k ..< Suc k + length fs]"
    and di: "dials es = map (\<lambda>j. w_targets w ! nat j)
                          (?j # map (\<lambda>(e, r). int r mod ?n) fs)"
    and cl: "closes es = (case w_conn w of None \<Rightarrow> [] | Some c0 \<Rightarrow> [c0])"
    and w': "w' = ?w1\<lparr>w_target := last (dials es), w_conn := Some c, w_lastReconnect := now\<rparr>"
    by (elim exE conjE) simp
  let ?es = "[Dialed ?t, Slept (backoff k)] @ es"
  have "connect_loop ctx w (backoff k) i
          (map (\<lambda>(e, r). Dial_fail e False r) (f # fs) @ Dial_ok c now # rest) =
        Some (Ret None w' ?es)"
    using Cons.prems by (simp add: f connect_loop_fail ctx_Err_False next_delay_backoff run)
  moreover have "sleeps ?es = map backoff [k ..< k + length (f # fs)]"
  proof -
    have "sleeps ?es = backoff k # map backoff [Suc k ..< Suc k + length fs]"
      by (simp only: sleeps_append sleeps.simps sl append_Cons append_Nil)
    also have "\<dots> = map backoff (k # [Suc k ..< Suc k + length fs])"
      by (simp only: list.map)
    also have "k # [Suc k ..< Suc k + length fs] = [k ..< k + Suc (length fs)]"
      by (rule upt_shift [symmetric])
    finally show ?thesis by (simp only: length_Cons)
  qed
  moreover have "dials ?es = map (\<lambda>j. w_targets w ! nat j)
                        (i # map (\<lambda>(e, r). int r mod ?n) (f # fs))"
    by (simp add: di f)
  moreover have "closes ?es = (case w_conn w of None \<Rightarrow> [] | Some c0 \<Rightarrow> [c0])"
    by (simp add: cl)
  moreover have "take 1 ?es = [Dialed ?t]" by simp
  moreover have "w' = w\<lparr>w_target := last (dials ?es), w_conn := Some c, w_lastReconnect := now\<rparr>"
    by (simp add: w' di)
  ultimately show ?case by (intro exI conjI)
qed

lemma connect_loop_first_dial:
  assumes "0 \<le> i" and "i < int (length (w_targets w))"
    and "connect_loop ctx w d i (a # as) = Some r"
  shows "take 1 (effects r) = [Dialed (w_targets w ! nat i)]"
proof (cases a)
  case (Dial_ok c now)
  with assms show ?thesis by (auto simp: connect_loop_ok)
next
  case (Dial_fail e cancelled x)
  show ?thesis
  proof (cases "ctx_Err ctx cancelled")
    case True
    with assms Dial_fail show ?thesis by (auto simp: connect_loop_cancelled)
  next
    case False
    with assms Dial_fail show ?thesis
      by (auto simp: connect_loop_fail effects_prepend)
  qed
qed

text \<open>
  Claim C3. In every run of \<^verbatim>\<open>ConnectWithRetries\<close> the sleeps after the failed dials are
  2s, 4s, 8s, 16s, 30s, 30s, ... from the start of that run, whatever the worker did before
  (first and last conjunct). The first dial goes to the worker's primary target, and after
  each failed dial the next target is the one \<^verbatim>\<open>rand.Intn\<close> draws over all the targets
  (second conjunct): every index of the list can be drawn, the one just tried and the
  primary included (third conjunct). That the draw is uniform is the library's.
\<close>

theorem ConnectWithRetries_backoff:
  "(\<forall>r. ConnectWithRetries ctx w as = Some r \<longrightarrow>
        sleeps (effects r) = map backoff [0 ..< length (sleeps (effects r))]) \<and>
   (0 \<le> w_targetIdx w \<and> w_targetIdx w < int (length (w_targets w)) \<longrightarrow>
      (\<exists>w' es. ConnectWithRetries ctx w
                  (map (\<lambda>(e, r). Dial_fail e False r) fs @ Dial_ok c now # rest) =
                Some (Ret None w' es) \<and>
         sleeps es = map backoff [0 ..< length fs] \<and>
         dials es = map (\<lambda>j. w_targets w ! nat j)
                      (w_targetIdx w # map (\<lambda>(e, r). int r mod int (length (w_targets w))) fs))) \<and>
   (\<forall>j. 0 \<le> j \<and> j < int (length (w_targets w)) \<longrightarrow>
        Intn (int (length (w_targets w))) (nat j) = Inr j) \<and>
   map backoff [0 ..< 7] =
     [2 * second, 4 * second, 8 * second, 16 * second, 30 * second, 30 * second, 30 * second]"
proof -
  have b0: "2 * second = backoff 0"
    by (simp add: backoff_def)
  have A: "sleeps (effects r) = map backoff [0 ..< length (sleeps (effects r))]"
    if "ConnectWithRetries ctx w as = Some r" for r
  proof -
    from that have "connect_loop ctx w (backoff 0) (w_targetIdx w) as = Some r"
      by (simp add: ConnectWithRetries_def b0)
    from connect_loop_sleeps [OF this]
    obtain n where n: "sleeps (effects r) = map backoff [0 ..< 0 + n]" by (elim exE)
    then have "length (sleeps (effects r)) = n" by simp
    with n show ?thesis by simp
  qed
  have B: "\<exists>w' es. ConnectWithRetries ctx w
                  (map (\<lambda>(e, r). Dial_fail e False r) fs @ Dial_ok c now # rest) =
                Some (Ret None w' es) \<and>
         sleeps es = map backoff [0 ..< length fs] \<and>
         dials es = map (\<lambda>j. w_targets w ! nat j)
                      (w_targetIdx w # map (\<lambda>(e, r). int r mod int (length (w_targets w))) fs)"
    if "0 \<le> w_targetIdx w \<and> w_targetIdx w < int (length (w_targets w))"
  proof -
    from that have i: "0 \<le> w_targetIdx w" "w_targetIdx w < int (length (w_targets w))"
      by simp_all
    from connect_loop_fails_then_ok [OF i, of ctx 0 fs c now rest]
    obtain w' es where
      "connect_loop ctx w (backoff 0) (w_targetIdx w)
         (map (\<lambda>(e, r). Dial_fail e False r) fs @ Dial_ok c now # rest) = Some (Ret None w' es)"
      and "sleeps es = map backoff [0 ..< 0 + length fs]"
      and "dials es = map (\<lambda>j. w_targets w ! nat j)
                        (w_targetIdx w # map (\<lambda>(e, r). int r mod int (length (w_targets w))) fs)"
      by (elim exE conjE)
    then show ?thesis
      by (intro exI [of _ w'] exI [of _ es]) (simp add: ConnectWithRetries_def b0)
  qed
  have C: "Intn (int (length (w_targets w))) (nat j) = Inr j"
    if "0 \<le> j \<and> j < int (length (w_targets w))" for j
    using that by (cases "w_targets w") (auto simp: Intn_def)
  show ?thesis
    apply (rule conjI)
     apply (rule allI)
     apply (rule impI)
     apply (erule A)
    apply (rule conjI)
     apply (rule impI)
     apply (erule B)
    apply (rule conjI)
     apply (rule allI)
     apply (rule impI)
     apply (erule C)
    apply (rule backoff_values)
    done
qed

lemma worker0_valid:
  "0 \<le> w_targetIdx worker0 \<and> w_targetIdx worker0 < int (length (w_targets worker0))"
  by (simp add: worker0_def)

theorem ConnectWithRetries_backoff_witness:
  "(0 \<le> w_targetIdx worker0 \<and> w_targetIdx worker0 < int (length (w_targets worker0))) \<and>
   (\<exists>w' es. ConnectWithRetries WithCancel worker0
               (map (\<lambda>(e, r). Dial_fail e False r)
                  [(''refused'', 1), (''refused'', 3), (''timeout'', 5), (''refused'', 2), (''refused'', 7)]
                @ Dial_ok 9 5000 # []) = Some (Ret None w' es) \<and>
      sleeps es = [2 * second, 4 * second, 8 * second, 16 * second, 30 * second] \<and>
      dials es = [''b:2'', ''b:2'', ''a:1'', ''c:3'', ''c:3'', ''b:2''] \<and>
      sleeps es = map backoff [0 ..< length (sleeps es)]) \<and>
   Intn (int (length (w_targets worker0))) (nat 1) = Inr 1"
proof -
  let ?fs = "[(''refused'', 1), (''refused'', 3), (''timeout'', 5), (''refused'', 2), (''refused'', 7)]
               :: (error \<times> nat) list"
  let ?as = "map (\<lambda>(e, r). Dial_fail e False r) ?fs @ Dial_ok 9 5000 # []"
  note t = ConnectWithRetries_backoff [of WithCancel worker0 ?as ?fs 9 5000 "[]"]
  from t [THEN conjunct2, THEN conjunct1, THEN mp, OF worker0_valid]
  obtain w' es where
    run: "ConnectWithRetries WithCancel worker0 ?as = Some (Ret None w' es)"
    and sl: "sleeps es = map backoff [0 ..< length ?fs]"
    and di: "dials es = map (\<lambda>j. w_targets worker0 ! nat j)
               (w_targetIdx worker0 # map (\<lambda>(e, r). int r mod int (length (w_targets worker0))) ?fs)"
    by (elim exE conjE)
  from t [THEN conjunct1, THEN spec, THEN mp, OF run]
  have pre: "sleeps es = map backoff [0 ..< length (sleeps es)]"
    by (simp only: effects.simps)
  have "(1::int) \<ge> 0 \<and> 1 < int (length (w_targets worker0))"
    by (simp add: worker0_def)
  from t [THEN conjunct2, THEN conjunct2, THEN conjunct1, THEN spec, THEN mp, OF this]
  have full: "Intn (int (length (w_targets worker0))) (nat 1) = Inr 1" .
  have sl': "sleeps es = [2 * second, 4 * second, 8 * second, 16 * second, 30 * second]"
    by (simp add: sl backoff_def upt_conv_Cons)
  have di': "dials es = [''b:2'', ''b:2'', ''a:1'', ''c:3'', ''c:3'', ''b:2'']"
    by (simp add: di worker0_def)
  from run sl' di' pre full worker0_valid [THEN conjunct1] worker0_valid [THEN conjunct2]
  show ?thesis
    by (intro conjI exI [of _ w'] exI [of _ es])
qed

lemma Close_Some: "w_conn w = Some c \<Longrightarrow> Close w = (w\<lparr>w_conn := None\<rparr>, [Closed c])"
  by (simp add: Close_def)

lemma Close_None: "w_conn w = None \<Longrightarrow> Close w = (w, [])"
  by (simp add: Close_def)

text \<open>
  Claim C5. For a worker with an established connection, \<^verbatim>\<open>ConnectIfNeeded\<close> returns at
  once and changes nothing while no more than five minutes have passed since the last
  successful connect. Once more than five minutes have passed it closes the current
  connection first and then dials, the worker's primary target first, whatever target the
  worker was connected to; the redial follows the retry loop and the new connection and
  its time are recorded.
\<close>

theorem ConnectIfNeeded_reconnect:
  assumes "w_conn w = Some c0"
  shows "(now - w_lastReconnect w \<le> 5 * minute \<longrightarrow>
            ConnectIfNeeded ctx w now as = Some (Ret None w [])) \<and>
         (now - w_lastReconnect w > 5 * minute \<and>
          0 \<le> w_targetIdx w \<and> w_targetIdx w < int (length (w_targets w)) \<longrightarrow>
            (\<exists>w' es. ConnectIfNeeded ctx w now
                        (map (\<lambda>(e, r). Dial_fail e False r) fs @ Dial_ok c t # rest) =
                      Some (Ret None w' es) \<and>
               take 2 es = [Closed c0, Dialed (w_targets w ! nat (w_targetIdx w))] \<and>
               closes es = [c0] \<and>
               dials es = map (\<lambda>j. w_targets w ! nat j)
                            (w_targetIdx w #
                             map (\<lambda>(e, r). int r mod int (length (w_targets w))) fs) \<and>
               w_conn w' = Some c \<and> w_lastReconnect w' = t) \<and>
            (\<forall>r a. ConnectIfNeeded ctx w now (a # as) = Some r \<longrightarrow>
               take 2 (effects r) = [Closed c0, Dialed (w_targets w ! nat (w_targetIdx w))]))"
proof -
  let ?w1 = "w\<lparr>w_conn := None\<rparr>"
  let ?p = "w_targets w ! nat (w_targetIdx w)"
  have A: "ConnectIfNeeded ctx w now as = Some (Ret None w [])"
    if "now - w_lastReconnect w \<le> 5 * minute"
    using that assms by (simp add: ConnectIfNeeded_def)
  have re: "ConnectIfNeeded ctx w now bs =
              map_option (prepend [Closed c0]) (connect_loop ctx ?w1 (backoff 0) (w_targetIdx w) bs)"
    if "now - w_lastReconnect w > 5 * minute" for bs
    using that assms
    by (simp add: ConnectIfNeeded_def Reconnect_def Close_Some ConnectWithRetries_def backoff_def)
  have B: "\<exists>w' es. ConnectIfNeeded ctx w now
                        (map (\<lambda>(e, r). Dial_fail e False r) fs @ Dial_ok c t # rest) =
                      Some (Ret None w' es) \<and>
               take 2 es = [Closed c0, Dialed ?p] \<and>
               closes es = [c0] \<and>
               dials es = map (\<lambda>j. w_targets w ! nat j)
                            (w_targetIdx w #
                             map (\<lambda>(e, r). int r mod int (length (w_targets w))) fs) \<and>
               w_conn w' = Some c \<and> w_lastReconnect w' = t"
    if late: "now - w_lastReconnect w > 5 * minute"
      and i: "0 \<le> w_targetIdx w" "w_targetIdx w < int (length (w_targets w))"
  proof -
    from i have i1: "0 \<le> w_targetIdx w" "w_targetIdx w < int (length (w_targets ?w1))"
      by simp_all
    from connect_loop_fails_then_ok [OF i1, of ctx 0 fs c t rest]
    obtain w' es where
      run: "connect_loop ctx ?w1 (backoff 0) (w_targetIdx w)
              (map (\<lambda>(e, r). Dial_fail e False r) fs @ Dial_ok c t # rest) = Some (Ret None w' es)"
      and di: "dials es = map (\<lambda>j. w_targets w ! nat j)
                (w_targetIdx w # map (\<lambda>(e, r). int r mod int (length (w_targets w))) fs)"
      and cl: "closes es = []"
      and hd: "take 1 es = [Dialed ?p]"
      and w': "w' = ?w1\<lparr>w_target := last (dials es), w_conn := Some c, w_lastReconnect := t\<rparr>"
      by (elim exE conjE) simp
    let ?es = "[Closed c0] @ es"
    have "ConnectIfNeeded ctx w now
            (map (\<lambda>(e, r). Dial_fail e False r) fs @ Dial_ok c t # rest) = Some (Ret None w' ?es)"
      by (simp add: re [OF late] run)
    moreover have "take 2 ?es = [Closed c0, Dialed ?p]"
      using hd by (cases es) simp_all
    moreover have "closes ?es = [c0]"
      by (simp add: cl)
    moreover have "dials ?es = map (\<lambda>j. w_targets w ! nat j)
                (w_targetIdx w # map (\<lambda>(e, r). int r mod int (length (w_targets w))) fs)"
      by (simp add: di)
    moreover have "w_conn w' = Some c" "w_lastReconnect w' = t"
      by (simp_all add: w')
    ultimately show ?thesis by (intro exI conjI)
  qed
  have C: "take 2 (effects r) = [Closed c0, Dialed ?p]"
    if late: "now - w_lastReconnect w > 5 * minute"
      and i: "0 \<le> w_targetIdx w" "w_targetIdx w < int (length (w_targets w))"
      and run: "ConnectIfNeeded ctx w now (a # as) = Some r" for r a
  proof -
    from run obtain r' where
      r': "connect_loop ctx ?w1 (backoff 0) (w_targetIdx w) (a # as) = Some r'"
      and r: "r = prepend [Closed c0] r'"
      by (auto simp: re [OF late])
    from i have i1: "0 \<le> w_targetIdx w" "w_targetIdx w < int (length (w_targets ?w1))"
      by simp_all
    from connect_loop_first_dial [OF i1 r']
    have "take 1 (effects r') = [Dialed ?p]" by simp
    then show ?thesis
      by (cases "effects r'") (simp_all add: r effects_prepend)
  qed
  show ?thesis
    apply (rule conjI)
     apply (rule impI)
     apply (erule A)
    apply (rule impI)
    apply (elim conjE)
    apply (rule conjI)
     apply (erule (2) B)
    apply (intro allI impI)
    apply (erule (3) C)
    done
qed

theorem ConnectIfNeeded_reconnect_witness:
  "w_conn worker0 = Some 4 \<and>
   1000 + 5 * minute - w_lastReconnect worker0 \<le> 5 * minute \<and>
   ConnectIfNeeded WithCancel worker0 (1000 + 5 * minute) [] = Some (Ret None worker0 []) \<and>
   (1001 + 5 * minute - w_lastReconnect worker0 > 5 * minute \<and>
    0 \<le> w_targetIdx worker0 \<and> w_targetIdx worker0 < int (length (w_targets worker0))) \<and>
   (\<exists>w' es. ConnectIfNeeded WithCancel worker0 (1001 + 5 * minute)
               (map (\<lambda>(e, r). Dial_fail e False r) [(''refused'', 2)] @ Dial_ok 9 7000 # []) =
             Some (Ret None w' es) \<and>
      take 2 es = [Closed 4, Dialed ''b:2''] \<and>
      dials es = [''b:2'', ''c:3''] \<and>
      w_conn w' = Some 9 \<and> w_lastReconnect w' = 7000)"
proof -
  have c: "w_conn worker0 = Some 4"
    by (simp add: worker0_def)
  have early: "1000 + 5 * minute - w_lastReconnect worker0 \<le> 5 * minute"
    by (simp add: worker0_def)
  have late: "1001 + 5 * minute - w_lastReconnect worker0 > 5 * minute \<and>
    0 \<le> w_targetIdx worker0 \<and> w_targetIdx worker0 < int (length (w_targets worker0))"
    by (simp add: worker0_def)
  note t1 = ConnectIfNeeded_reconnect [OF c, where now = "1000 + 5 * minute" and ctx = WithCancel
      and as = "[]", THEN conjunct1, THEN mp, OF early]
  note t2 = ConnectIfNeeded_reconnect [OF c, where now = "1001 + 5 * minute" and ctx = WithCancel
      and fs = "[(''refused'', 2)]" and c = 9 and t = 7000 and rest = "[]" and as = "[]",
      THEN conjunct2, THEN mp, OF late, THEN conjunct1]
  from t2 obtain w' es where
    run: "ConnectIfNeeded WithCancel worker0 (1001 + 5 * minute)
               (map (\<lambda>(e, r). Dial_fail e False r) [(''refused'', 2)] @ Dial_ok 9 7000 # []) =
             Some (Ret None w' es)"
    and tk: "take 2 es = [Closed 4, Dialed (w_targets worker0 ! nat (w_targetIdx worker0))]"
    and di: "dials es = map (\<lambda>j. w_targets worker0 ! nat j)
               (w_targetIdx worker0 #
                map (\<lambda>(e, r). int r mod int (length (w_targets worker0))) [(''refused'', 2)])"
    and w': "w_conn w' = Some 9" "w_lastReconnect w' = 7000"
    by (elim exE conjE)
  have tk': "take 2 es = [Closed 4, Dialed ''b:2'']"
    using tk by (simp add: worker0_def)
  have di': "dials es = [''b:2'', ''c:3'']"
    using di by (simp add: worker0_def)
  from run tk' di' w' have
    "\<exists>w' es. ConnectIfNeeded WithCancel worker0 (1001 + 5 * minute)
               (map (\<lambda>(e, r). Dial_fail e False r) [(''refused'', 2)] @ Dial_ok 9 7000 # []) =
             Some (Ret None w' es) \<and>
      take 2 es = [Closed 4, Dialed ''b:2''] \<and>
      dials es = [''b:2'', ''c:3''] \<and>
      w_conn w' = Some 9 \<and> w_lastReconnect w' = 7000"
    by (intro exI [of _ w'] exI [of _ es] conjI)
  with c early t1 late show ?thesis
    by (intro conjI) simp_all
qed

lemma prepend_Ret: "prepend es r = Ret x w es' \<Longrightarrow> \<exists>es''. r = Ret x w es''"
  by (cases r) simp_all

lemma prepend_Panic: "prepend es r = Panic f w es' \<Longrightarrow> \<exists>es''. r = Panic f w es''"
  by (cases r) simp_all

text \<open>What a turn of the dial loop can be, by the attempt it meets.\<close>

lemma connect_loop_cases:
  assumes "connect_loop ctx w d i (a # as) = Some r"
  obtains (index) "r = Panic Index_out_of_range w []"
  | (dialled) c now w' es where "a = Dial_ok c now" and "r = Ret None w' es" and "w_conn w' = Some c"
  | (cancelled) e cancelled x w' es where "a = Dial_fail e cancelled x" and "ctx_Err ctx cancelled"
      and "r = Ret (Some e) w' es"
  | (intn) w' es where "r = Panic Intn_nonpositive w' es"
  | (retry) w1 d1 j r' es where "connect_loop ctx w1 d1 j as = Some r'" and "r = prepend es r'"
proof (cases "index_targets (w_targets w) i")
  case (Inl f)
  then have "f = Index_out_of_range"
    by (auto simp: index_targets_def split: if_splits)
  with assms Inl index show ?thesis
    by (simp add: connect_loop.simps(2))
next
  case (Inr t)
  show ?thesis
  proof (cases a)
    case (Dial_ok c now)
    with assms Inr dialled show ?thesis
      by (auto simp: connect_loop.simps(2) Let_def Close_def split: option.splits)
  next
    case (Dial_fail e c x)
    show ?thesis
    proof (cases "ctx_Err ctx c")
      case True
      with assms Inr Dial_fail cancelled show ?thesis
        by (auto simp: connect_loop.simps(2) Let_def)
    next
      case False
      show ?thesis
      proof (cases "Intn (int (length (w_targets w))) x")
        case (Inl f)
        then have "f = Intn_nonpositive"
          by (auto simp: Intn_def split: if_splits)
        with assms \<open>index_targets (w_targets w) i = Inr t\<close> Dial_fail False Inl intn
        show ?thesis
          by (auto simp: connect_loop.simps(2) Let_def)
      next
        case (Inr j)
        with assms \<open>index_targets (w_targets w) i = Inr t\<close> Dial_fail False retry
        show ?thesis
          by (auto simp: connect_loop.simps(2) Let_def split: option.splits)
      qed
    qed
  qed
qed

lemma connect_loop_TODO:
  "connect_loop TODO w d i as = Some (Ret x w' es) \<Longrightarrow> w_conn w' \<noteq> None"
proof (induction as arbitrary: w d i es)
  case Nil
  then show ?case by simp
next
  case (Cons a as)
  from Cons.prems show ?case
  proof (cases rule: connect_loop_cases)
    case index
    then show ?thesis by simp
  next
    case (dialled c now w'' es'')
    then show ?thesis by simp
  next
    case (cancelled e cancelled x w'' es'')
    then show ?thesis by (simp add: ctx_Err_def)
  next
    case (intn w'' es'')
    then show ?thesis by simp
  next
    case (retry w1 d1 j r' es1)
    from retry(2) [symmetric] obtain es2 where "r' = Ret x w' es2"
      by (auto dest: prepend_Ret)
    with retry(1) Cons.IH show ?thesis by simp
  qed
qed

lemma connect_loop_no_nil:
  "connect_loop ctx w d i as = Some (Panic f w' es) \<Longrightarrow> f \<noteq> Nil_dereference"
proof (induction as arbitrary: w d i es)
  case Nil
  then show ?case by simp
next
  case (Cons a as)
  from Cons.prems show ?case
  proof (cases rule: connect_loop_cases)
    case (retry w1 d1 j r' es1)
    from retry(2) [symmetric] obtain es2 where "r' = Panic f w' es2"
      by (auto dest: prepend_Panic)
    with retry(1) Cons.IH show ?thesis by simp
  qed simp_all
qed

lemma ConnectIfNeeded_TODO:
  assumes "ConnectIfNeeded TODO w now as = Some (Ret x w' es)"
  shows "w_conn w' \<noteq> None"
proof (cases "w_conn w")
  case None
  with assms show ?thesis
    by (auto simp: ConnectIfNeeded_def ConnectWithRetries_def dest: connect_loop_TODO)
next
  case (Some c)
  show ?thesis
  proof (cases "now - w_lastReconnect w > 5 * minute")
    case False
    with assms Some show ?thesis by (auto simp: ConnectIfNeeded_def)
  next
    case True
    with assms Some obtain r where
      "connect_loop TODO (w\<lparr>w_conn := None\<rparr>) (2 * second) (w_targetIdx w) as = Some r"
      and "prepend [Closed c] r = Ret x w' es"
      by (auto simp: ConnectIfNeeded_def Reconnect_def Close_Some ConnectWithRetries_def)
    then show ?thesis
      by (auto dest!: prepend_Ret dest: connect_loop_TODO)
  qed
qed

lemma ConnectIfNeeded_no_nil:
  assumes "ConnectIfNeeded ctx w now as = Some (Panic f w' es)"
  shows "f \<noteq> Nil_dereference"
proof (cases "w_conn w")
  case None
  with assms show ?thesis
    by (auto simp: ConnectIfNeeded_def ConnectWithRetries_def dest: connect_loop_no_nil)
next
  case (Some c)
  show ?thesis
  proof (cases "now - w_lastReconnect w > 5 * minute")
    case False
    with assms Some show ?thesis by (auto simp: ConnectIfNeeded_def)
  next
    case True
    with assms Some obtain r where
      "connect_loop ctx (w\<lparr>w_conn := None\<rparr>) (2 * second) (w_targetIdx w) as = Some r"
      and "prepend [Closed c] r = Panic f w' es"
      by (auto simp: ConnectIfNeeded_def Reconnect_def Close_Some ConnectWithRetries_def)
    then show ?thesis
      by (auto dest!: prepend_Panic dest: connect_loop_no_nil)
  qed
qed

lemma Write_connected:
  "w_conn w = Some c \<Longrightarrow>
   Write w b wr = (case wr of
       Write_ok \<Rightarrow> Ret (length b, None) w [Deadline c (30 * second), Wrote c b]
     | Write_fail n e \<Rightarrow> Ret (n, Some e) w [Deadline c (30 * second), WriteFailed c b n])"
  by (simp add: Write_def)

lemma Write_nil: "w_conn w = None \<Longrightarrow> Write w b wr = Panic Nil_dereference w []"
  by (simp add: Write_def)

text \<open>
  With a context that is never cancelled, a call of \<^verbatim>\<open>WriteWithRetries\<close> that ends has
  written the whole record on a live connection, or has panicked elsewhere than in
  \<^verbatim>\<open>Write\<close>.
\<close>

lemma WriteWithRetries_TODO:
  "WriteWithRetries TODO w b rs = Some r \<Longrightarrow>
   (case r of Panic f w' es \<Rightarrow> f \<noteq> Nil_dereference
            | Ret x w' es \<Rightarrow> w_conn w' \<noteq> None \<and> x = (length b, None))"
proof (induction rs arbitrary: w r)
  case Nil
  then show ?case by simp
next
  case (Cons rd rs)
  obtain now as wr where rd: "rd = Round now as wr" by (cases rd)
  show ?case
  proof (cases "ConnectIfNeeded TODO w now as")
    case None
    with Cons.prems rd show ?thesis by simp
  next
    case (Some cr)
    show ?thesis
    proof (cases cr)
      case (Panic f w1 es)
      with Some have "f \<noteq> Nil_dereference"
        by (auto dest: ConnectIfNeeded_no_nil)
      with Cons.prems rd Some Panic show ?thesis by auto
    next
      case (Ret x w1 es)
      with Some have "w_conn w1 \<noteq> None"
        by (auto dest: ConnectIfNeeded_TODO)
      then obtain c where c: "w_conn w1 = Some c" by auto
      show ?thesis
      proof (cases wr)
        case Write_ok
        with Cons.prems rd Some Ret c show ?thesis
          by (auto simp: Write_connected)
      next
        case (Write_fail n e)
        with Cons.prems rd Some Ret c obtain r' where
          r': "WriteWithRetries TODO (w1\<lparr>w_conn := None\<rparr>) b rs = Some r'"
          and r: "r = prepend (es @ [Deadline c (30 * second), WriteFailed c b n] @ [Closed c]) r'"
          by (auto simp: Write_connected Close_Some)
        from Cons.IH [OF r'] show ?thesis
          by (cases r') (simp_all add: r)
      qed
    qed
  qed
qed

lemma transmit_loop_no_nil:
  "transmit_loop st evs = Crashed f st' \<Longrightarrow> f \<noteq> Nil_dereference"
proof (induction st evs rule: transmit_loop.induct)
  case (1 st)
  then show ?case by simp
next
  case (2 st evs)
  then show ?case
    by (auto simp: Let_def split: if_splits prod.splits)
next
  case (3 st evs)
  then show ?case
    by (auto split: if_splits)
next
  case (4 st b rs evs)
  show ?case
  proof (cases "WriteWithRetries TODO (l_w (st\<lparr>l_idleCount := 0\<rparr>)) (buf_data b) rs")
    case None
    with "4.prems" show ?thesis by (simp add: Let_def)
  next
    case (Some r)
    show ?thesis
    proof (cases r)
      case (Panic g w' es)
      from WriteWithRetries_TODO [OF Some] Panic have "g \<noteq> Nil_dereference" by simp
      with "4.prems" Some Panic show ?thesis by (auto simp: Let_def)
    next
      case (Ret n w' es)
      with "4.prems" Some "4.IH" [OF refl Some Ret] show ?thesis
        by (simp add: Let_def)
    qed
  qed
qed

text \<open>
  Claim C10. \<^verbatim>\<open>WriteWithRetries\<close> drops what \<^verbatim>\<open>ConnectIfNeeded\<close> returns and calls
  \<^verbatim>\<open>Write\<close>, which uses the connection without a check: with a cancellable context that
  is cancelled while the dial fails, the call panics on the nil connection (second
  conjunct). With \<^verbatim>\<open>context.TODO()\<close>, which \<^verbatim>\<open>transmit\<close> passes, no call panics on a nil
  connection and a call that returns holds a connection (first conjunct); so the worker's
  loop never crashes on a nil connection (third conjunct).
\<close>

theorem WriteWithRetries_conn_not_nil:
  "(\<forall>r. WriteWithRetries TODO w b rs = Some r \<longrightarrow>
        (case r of Panic f w' es \<Rightarrow> f \<noteq> Nil_dereference | Ret x w' es \<Rightarrow> w_conn w' \<noteq> None)) \<and>
   (w_conn w = None \<and> 0 \<le> w_targetIdx w \<and> w_targetIdx w < int (length (w_targets w)) \<longrightarrow>
      WriteWithRetries WithCancel w b (Round now (Dial_fail e True x # as) wr # rs) =
        Some (Panic Nil_dereference (w\<lparr>w_target := w_targets w ! nat (w_targetIdx w)\<rparr>)
                [Dialed (w_targets w ! nat (w_targetIdx w))])) \<and>
   (\<forall>st'. transmit_loop st evs \<noteq> Crashed Nil_dereference st')"
proof -
  have A: "case r of Panic f w' es \<Rightarrow> f \<noteq> Nil_dereference | Ret x w' es \<Rightarrow> w_conn w' \<noteq> None"
    if "WriteWithRetries TODO w b rs = Some r" for r
    using WriteWithRetries_TODO [OF that] by (cases r) simp_all
  have B: "WriteWithRetries WithCancel w b (Round now (Dial_fail e True x # as) wr # rs) =
        Some (Panic Nil_dereference (w\<lparr>w_target := w_targets w ! nat (w_targetIdx w)\<rparr>)
                [Dialed (w_targets w ! nat (w_targetIdx w))])"
    if "w_conn w = None \<and> 0 \<le> w_targetIdx w \<and> w_targetIdx w < int (length (w_targets w))"
  proof -
    from that have n: "w_conn w = None"
      and i: "0 \<le> w_targetIdx w" "w_targetIdx w < int (length (w_targets w))" by simp_all
    have "ctx_Err WithCancel True" by (simp add: ctx_Err_def)
    from connect_loop_cancelled [OF i this]
    have "ConnectIfNeeded WithCancel w now (Dial_fail e True x # as) =
            Some (Ret (Some e) (w\<lparr>w_target := w_targets w ! nat (w_targetIdx w)\<rparr>)
                    [Dialed (w_targets w ! nat (w_targetIdx w))])"
      by (simp add: ConnectIfNeeded_def ConnectWithRetries_def n)
    then show ?thesis
      by (simp add: Write_nil n)
  qed
  have C: "transmit_loop st evs \<noteq> Crashed Nil_dereference st'" for st'
    using transmit_loop_no_nil [of st evs Nil_dereference st'] by auto
  show ?thesis
    apply (rule conjI)
     apply (rule allI)
     apply (rule impI)
     apply (erule A)
    apply (rule conjI)
     apply (rule impI)
     apply (erule B)
    apply (rule allI)
    apply (rule C)
    done
qed

theorem WriteWithRetries_conn_not_nil_witness:
  "(\<exists>r. WriteWithRetries TODO (worker0\<lparr>w_conn := None\<rparr>) [0x61, 0x0A]
           [Round 0 [Dial_fail ''refused'' True 0, Dial_ok 5 10] (Write_fail 0 ''reset''),
            Round 20 [Dial_ok 6 30] Write_ok] = Some r \<and>
        (case r of Panic f w' es \<Rightarrow> f \<noteq> Nil_dereference | Ret x w' es \<Rightarrow> w_conn w' \<noteq> None)) \<and>
   (w_conn (worker0\<lparr>w_conn := None\<rparr>) = None \<and> 0 \<le> w_targetIdx (worker0\<lparr>w_conn := None\<rparr>) \<and>
    w_targetIdx (worker0\<lparr>w_conn := None\<rparr>) < int (length (w_targets (worker0\<lparr>w_conn := None\<rparr>)))) \<and>
   WriteWithRetries WithCancel (worker0\<lparr>w_conn := None\<rparr>) [0x61, 0x0A]
     (Round 0 (Dial_fail ''refused'' True 0 # [Dial_ok 5 10]) (Write_fail 0 ''reset'') #
      [Round 20 [Dial_ok 6 30] Write_ok]) =
     Some (Panic Nil_dereference (worker0\<lparr>w_conn := None, w_target := ''b:2''\<rparr>) [Dialed ''b:2''])"
proof -
  let ?w = "worker0\<lparr>w_conn := None\<rparr>"
  let ?rs = "[Round 0 [Dial_fail ''refused'' True 0, Dial_ok 5 10] (Write_fail 0 ''reset''),
            Round 20 [Dial_ok 6 30] Write_ok]"
  note t = WriteWithRetries_conn_not_nil [where w = ?w and b = "[0x61, 0x0A]"]
  have "\<exists>r. WriteWithRetries TODO ?w [0x61, 0x0A] ?rs = Some r"
    by (simp add: worker0_def ConnectIfNeeded_def ConnectWithRetries_def Reconnect_def
        connect_loop.simps(2) index_targets_def Intn_def ctx_Err_def Close_def Write_def
        Let_def minute_def second_def)
  then obtain r where run: "WriteWithRetries TODO ?w [0x61, 0x0A] ?rs = Some r"
    by (elim exE)
  from t [where rs = ?rs, THEN conjunct1, THEN spec, THEN mp, OF run] run
  have one: "\<exists>r. WriteWithRetries TODO ?w [0x61, 0x0A] ?rs = Some r \<and>
        (case r of Panic f w' es \<Rightarrow> f \<noteq> Nil_dereference | Ret x w' es \<Rightarrow> w_conn w' \<noteq> None)"
    by (intro exI [of _ r] conjI)
  have pre: "w_conn ?w = None \<and> 0 \<le> w_targetIdx ?w \<and>
    w_targetIdx ?w < int (length (w_targets ?w))"
    by (simp add: worker0_def)
  from t [where now = 0 and e = "''refused''" and x = 0 and as = "[Dial_ok 5 10]"
      and wr = "Write_fail 0 ''reset''" and rs = "[Round 20 [Dial_ok 6 30] Write_ok]",
      THEN conjunct2, THEN conjunct1, THEN mp, OF pre]
  have two: "WriteWithRetries WithCancel ?w [0x61, 0x0A]
     (Round 0 (Dial_fail ''refused'' True 0 # [Dial_ok 5 10]) (Write_fail 0 ''reset'') #
      [Round 20 [Dial_ok 6 30] Write_ok]) =
     Some (Panic Nil_dereference (worker0\<lparr>w_conn := None, w_target := ''b:2''\<rparr>) [Dialed ''b:2''])"
    by (simp add: worker0_def)
  from one pre two show ?thesis
    by (intro conjI) simp_all
qed

section \<open>Properties of the worker's main loop\<close>

lemma transmit_loop_Tick:
  "transmit_loop st (Tick # evs) =
     (if l_exit st \<and> 4 \<le> l_idleCount st then
        Exited (st\<lparr>l_idleCount := l_idleCount st + 1, l_w := fst (Close (l_w st)),
                    l_log := l_log st @ snd (Close (l_w st))\<rparr>) evs
      else transmit_loop (st\<lparr>l_idleCount := l_idleCount st + 1\<rparr>) evs)"
  by (simp add: Let_def split: prod.split)

lemma transmit_loop_Tick_on:
  "\<not> (l_exit st \<and> 4 \<le> l_idleCount st) \<Longrightarrow>
   transmit_loop st (Tick # evs) = transmit_loop (st\<lparr>l_idleCount := l_idleCount st + 1\<rparr>) evs"
  by (simp only: transmit_loop_Tick if_False)

lemma transmit_loop_Tick_exit:
  "l_exit st \<Longrightarrow> 4 \<le> l_idleCount st \<Longrightarrow>
   transmit_loop st (Tick # evs) =
     Exited (st\<lparr>l_idleCount := l_idleCount st + 1, l_w := fst (Close (l_w st)),
                 l_log := l_log st @ snd (Close (l_w st))\<rparr>) evs"
  by (simp only: transmit_loop_Tick simp_thms if_True)

lemma transmit_loop_Done:
  "transmit_loop st (Done # evs) =
     transmit_loop (st\<lparr>l_exit := l_exit st \<or> l_doneChan st, l_doneChan := False\<rparr>) evs"
proof (cases "l_doneChan st")
  case True
  then show ?thesis by simp
next
  case False
  then have eq: "st\<lparr>l_exit := l_exit st \<or> l_doneChan st, l_doneChan := False\<rparr> = st"
    by (cases st) simp
  show ?thesis unfolding eq using False by simp
qed

lemma transmit_loop_Recv:
  "WriteWithRetries TODO (l_w st) (buf_data b) rs = Some (Ret n w' es) \<Longrightarrow>
   transmit_loop st (Recv b rs # evs) =
     transmit_loop (st\<lparr>l_idleCount := 0, l_w := w', l_log := l_log st @ es,
                       l_pool := release b (l_pool st)\<rparr>) evs"
  by (simp add: Let_def)

lemma transmit_loop_Recv_stuck:
  "WriteWithRetries TODO (l_w st) (buf_data b) rs = None \<Longrightarrow>
   transmit_loop st (Recv b rs # evs) = Stuck (st\<lparr>l_idleCount := 0\<rparr>)"
  by (simp add: Let_def)

declare transmit_loop.simps(2,3,4) [simp del]

text \<open>A loop that waits at the end of its script goes on from there.\<close>

lemma transmit_loop_append:
  "transmit_loop st evs = Parked st' \<Longrightarrow> transmit_loop st (evs @ evs2) = transmit_loop st' evs2"
proof (induction st evs rule: transmit_loop.induct)
  case (1 st)
  then show ?case by simp
next
  case (2 st evs)
  show ?case
  proof (cases "l_exit st \<and> 4 \<le> l_idleCount st")
    case True
    with "2.prems" show ?thesis by (simp add: transmit_loop_Tick_exit)
  next
    case False
    with "2.prems" have "transmit_loop (st\<lparr>l_idleCount := l_idleCount st + 1\<rparr>) evs = Parked st'"
      by (simp add: transmit_loop_Tick_on)
    from "2.IH" [OF refl _ this] False show ?thesis
      by (simp add: transmit_loop_Tick_on)
  qed
next
  case (3 st evs)
  show ?case
  proof (cases "l_doneChan st")
    case True
    with 3 show ?thesis by (simp add: transmit_loop.simps(3))
  next
    case False
    with 3 show ?thesis by (simp add: transmit_loop.simps(3))
  qed
next
  case (4 st b rs evs)
  show ?case
  proof (cases "WriteWithRetries TODO (l_w (st\<lparr>l_idleCount := 0\<rparr>)) (buf_data b) rs")
    case None
    with "4.prems" show ?thesis by (simp add: transmit_loop.simps(4) Let_def)
  next
    case (Some r)
    show ?thesis
    proof (cases r)
      case (Panic g w' es)
      with "4.prems" Some show ?thesis by (simp add: transmit_loop.simps(4) Let_def)
    next
      case (Ret n w' es)
      with "4.prems" Some "4.IH" [OF refl Some Ret] show ?thesis
        by (simp add: transmit_loop.simps(4) Let_def)
    qed
  qed
qed

text \<open>The state of a waiting loop, read off the script.\<close>

lemma transmit_loop_Parked:
  "transmit_loop st evs = Parked st' \<Longrightarrow>
   l_idleCount st' = idle_of (l_idleCount st) evs \<and>
   l_exit st' = (l_exit st \<or> l_doneChan st \<and> Done \<in> set evs)"
proof (induction st evs rule: transmit_loop.induct)
  case (1 st)
  then show ?case by auto
next
  case (2 st evs)
  show ?case
  proof (cases "l_exit st \<and> 4 \<le> l_idleCount st")
    case True
    with "2.prems" show ?thesis by (simp add: transmit_loop_Tick_exit)
  next
    case False
    with "2.prems" have "transmit_loop (st\<lparr>l_idleCount := l_idleCount st + 1\<rparr>) evs = Parked st'"
      by (simp add: transmit_loop_Tick_on)
    from "2.IH" [OF refl _ this] False show ?thesis
      by (simp add: transmit_loop_Tick_on)
  qed
next
  case (3 st evs)
  show ?case
  proof (cases "l_doneChan st")
    case True
    with 3 show ?thesis by (simp add: transmit_loop.simps(3))
  next
    case False
    with 3 show ?thesis by (simp add: transmit_loop.simps(3))
  qed
next
  case (4 st b rs evs)
  show ?case
  proof (cases "WriteWithRetries TODO (l_w (st\<lparr>l_idleCount := 0\<rparr>)) (buf_data b) rs")
    case None
    with "4.prems" show ?thesis by (simp add: transmit_loop.simps(4) Let_def)
  next
    case (Some r)
    show ?thesis
    proof (cases r)
      case (Panic g w' es)
      with "4.prems" Some show ?thesis by (simp add: transmit_loop.simps(4) Let_def)
    next
      case (Ret n w' es)
      with "4.prems" Some "4.IH" [OF refl Some Ret] show ?thesis
        by (simp add: transmit_loop.simps(4) Let_def)
    qed
  qed
qed

text \<open>On return the signal has been seen, the counter has reached five, the connection is closed.\<close>

lemma transmit_loop_Exited:
  "transmit_loop st evs = Exited st' left \<Longrightarrow>
   l_exit st' \<and> 5 \<le> l_idleCount st' \<and> w_conn (l_w st') = None \<and>
   (\<exists>w es. l_w st' = fst (Close w) \<and> l_log st' = es @ snd (Close w))"
proof (induction st evs rule: transmit_loop.induct)
  case (1 st)
  then show ?case by simp
next
  case (2 st evs)
  show ?case
  proof (cases "l_exit st \<and> 4 \<le> l_idleCount st")
    case True
    with "2.prems" have st': "st' = st\<lparr>l_idleCount := l_idleCount st + 1, l_w := fst (Close (l_w st)),
                    l_log := l_log st @ snd (Close (l_w st))\<rparr>"
      by (simp add: transmit_loop_Tick)
    have "l_w st' = fst (Close (l_w st)) \<and> l_log st' = l_log st @ snd (Close (l_w st))"
      by (simp add: st')
    then have "\<exists>w es. l_w st' = fst (Close w) \<and> l_log st' = es @ snd (Close w)"
      by (intro exI)
    moreover have "l_exit st' \<and> 5 \<le> l_idleCount st' \<and> w_conn (l_w st') = None"
      using True by (simp add: st' Close_def split: option.split)
    ultimately show ?thesis by simp
  next
    case False
    with "2.prems" have "transmit_loop (st\<lparr>l_idleCount := l_idleCount st + 1\<rparr>) evs = Exited st' left"
      by (simp add: transmit_loop_Tick_on)
    from "2.IH" [OF refl _ this] False show ?thesis
      by simp
  qed
next
  case (3 st evs)
  show ?case
  proof (cases "l_doneChan st")
    case True
    with 3 show ?thesis by (simp add: transmit_loop.simps(3))
  next
    case False
    with 3 show ?thesis by (simp add: transmit_loop.simps(3))
  qed
next
  case (4 st b rs evs)
  show ?case
  proof (cases "WriteWithRetries TODO (l_w (st\<lparr>l_idleCount := 0\<rparr>)) (buf_data b) rs")
    case None
    with "4.prems" show ?thesis by (simp add: transmit_loop.simps(4) Let_def)
  next
    case (Some r)
    show ?thesis
    proof (cases r)
      case (Panic g w' es)
      with "4.prems" Some show ?thesis by (simp add: transmit_loop.simps(4) Let_def)
    next
      case (Ret n w' es)
      with "4.prems" Some "4.IH" [OF refl Some Ret] show ?thesis
        by (simp add: transmit_loop.simps(4) Let_def)
    qed
  qed
qed

text \<open>Ticks below the threshold, or without the signal, only count.\<close>

lemma transmit_loop_ticks:
  "\<not> l_exit st \<or> l_idleCount st + int k < 5 \<Longrightarrow>
   transmit_loop st (replicate k Tick @ rest) =
     transmit_loop (st\<lparr>l_idleCount := l_idleCount st + int k\<rparr>) rest"
proof (induction k arbitrary: st)
  case 0
  then show ?case by simp
next
  case (Suc k)
  let ?st1 = "st\<lparr>l_idleCount := l_idleCount st + 1\<rparr>"
  from Suc.prems have no: "\<not> (l_exit st \<and> 4 \<le> l_idleCount st)" by auto
  from Suc.prems have "\<not> l_exit ?st1 \<or> l_idleCount ?st1 + int k < 5" by auto
  from Suc.IH [OF this] have "transmit_loop ?st1 (replicate k Tick @ rest) =
      transmit_loop (st\<lparr>l_idleCount := l_idleCount st + int (Suc k)\<rparr>) rest"
    by (simp add: add.assoc)
  with transmit_loop_Tick_on [OF no] show ?case by simp
qed

lemma wrote_append: "wrote (xs @ ys) = wrote xs @ wrote ys"
  by (induction xs rule: wrote.induct) simp_all

lemma wrote_Close: "wrote (snd (Close w)) = []"
  by (simp add: Close_def split: option.split)

lemma connect_loop_wrote: "connect_loop ctx w d i as = Some r \<Longrightarrow> wrote (effects r) = []"
proof (induction as arbitrary: w d i r)
  case Nil
  then show ?case by simp
next
  case (Cons a as)
  from Cons.prems show ?case
    by (auto simp: connect_loop.simps(2) Let_def Close_def effects_prepend
        split: sum.splits attempt.splits if_splits option.splits prod.splits
        dest!: Cons.IH)
qed

lemma ConnectIfNeeded_wrote:
  assumes "ConnectIfNeeded ctx w now as = Some r"
  shows "wrote (effects r) = []"
proof (cases "w_conn w")
  case None
  with assms show ?thesis
    by (auto simp: ConnectIfNeeded_def ConnectWithRetries_def dest!: connect_loop_wrote)
next
  case (Some c)
  with assms show ?thesis
    by (auto simp: ConnectIfNeeded_def Reconnect_def ConnectWithRetries_def effects_prepend
        Close_Some split: if_splits dest!: connect_loop_wrote)
qed

text \<open>A call of \<^verbatim>\<open>WriteWithRetries\<close> that returns has written the record, whole, exactly once.\<close>

lemma WriteWithRetries_wrote:
  "WriteWithRetries ctx w b rs = Some (Ret n w' es) \<Longrightarrow> wrote es = [b] \<and> n = (length b, None)"
proof (induction rs arbitrary: w es)
  case Nil
  then show ?case by simp
next
  case (Cons rd rs)
  obtain now as wr where rd: "rd = Round now as wr" by (cases rd)
  show ?case
  proof (cases "ConnectIfNeeded ctx w now as")
    case None
    with Cons.prems rd show ?thesis by simp
  next
    case (Some cr)
    from ConnectIfNeeded_wrote [OF Some] have cw: "wrote (effects cr) = []" .
    show ?thesis
    proof (cases cr)
      case (Panic f w1 es1)
      with Cons.prems rd Some show ?thesis by simp
    next
      case (Ret x w1 es1)
      with cw have es1: "wrote es1 = []" by simp
      show ?thesis
      proof (cases "w_conn w1")
        case None
        with Cons.prems rd Some Ret show ?thesis by (simp add: Write_nil)
      next
        case (Some c)
        show ?thesis
        proof (cases wr)
          case Write_ok
          with Cons.prems rd \<open>ConnectIfNeeded ctx w now as = Some cr\<close> Ret Some es1
          show ?thesis
            by (auto simp: Write_connected wrote_append)
        next
          case (Write_fail k e)
          with Cons.prems rd \<open>ConnectIfNeeded ctx w now as = Some cr\<close> Ret Some
          obtain r' where
            r': "WriteWithRetries ctx (w1\<lparr>w_conn := None\<rparr>) b rs = Some r'"
            and r: "Ret n w' es =
                      prepend (es1 @ [Deadline c (30 * second), WriteFailed c b k] @ [Closed c]) r'"
            by (auto simp: Write_connected Close_Some)
          from r obtain es2 where r'': "r' = Ret n w' es2"
            and es: "es = (es1 @ [Deadline c (30 * second), WriteFailed c b k] @ [Closed c]) @ es2"
            by (cases r') simp_all
          from Cons.IH [OF r' [unfolded r'']] have "wrote es2 = [b] \<and> n = (length b, None)" .
          then show ?thesis
            by (simp add: es wrote_append es1)
        qed
      qed
    qed
  qed
qed

lemma transmit_loop_five_ticks:
  assumes "l_exit st" and "0 \<le> l_idleCount st"
  shows "\<exists>st' left. transmit_loop st (replicate 5 Tick @ rest) = Exited st' left"
proof (cases "4 \<le> l_idleCount st")
  case True
  have "replicate 5 Tick @ rest = Tick # replicate 4 Tick @ rest"
    by (simp add: numeral_eq_Suc)
  with transmit_loop_Tick_exit [OF assms(1) True, of "replicate 4 Tick @ rest"]
  show ?thesis by simp
next
  case False
  define k where "k = nat (4 - l_idleCount st)"
  let ?st1 = "st\<lparr>l_idleCount := l_idleCount st + int k\<rparr>"
  from False assms(2) have k: "l_idleCount st + int k = 4" "k \<le> 4"
    by (simp_all add: k_def)
  have "replicate (k + Suc (4 - k)) Tick = replicate k Tick @ Tick # replicate (4 - k) Tick"
    by (simp only: replicate_add replicate_Suc)
  moreover from k have "k + Suc (4 - k) = 5" by arith
  ultimately have split: "replicate 5 Tick @ rest =
      replicate k Tick @ Tick # replicate (4 - k) Tick @ rest"
    by simp
  from k have "\<not> l_exit st \<or> l_idleCount st + int k < 5" by simp
  from transmit_loop_ticks [OF this, of "Tick # replicate (4 - k) Tick @ rest"]
  have "transmit_loop st (replicate 5 Tick @ rest) =
          transmit_loop ?st1 (Tick # replicate (4 - k) Tick @ rest)"
    by (simp only: split)
  moreover have "l_exit ?st1" "4 \<le> l_idleCount ?st1"
    using assms(1) k by simp_all
  from transmit_loop_Tick_exit [OF this, of "replicate (4 - k) Tick @ rest"]
  have "\<exists>st' left. transmit_loop ?st1 (Tick # replicate (4 - k) Tick @ rest) = Exited st' left"
    by (intro exI)
  ultimately show ?thesis by simp
qed

text \<open>
  Claim C4, as the code has it. After the cancellation signal a worker leaves its loop at
  the first tick at which five ticks have been counted since the last record it took from
  the queue, ticks before the signal included: a loop that waits after a script leaves at
  the next tick exactly when the signal has come and four ticks have passed since the last
  record (first conjunct), so five ticks in a row after the signal always end it (second
  conjunct). It does not leave earlier, also when nothing is queued. On return the
  connection is closed (third conjunct). A record taken from the queue is written whole by
  \<^verbatim>\<open>WriteWithRetries\<close> before the loop takes its next turn, and the loop does not go on
  while that call has not returned (fourth and fifth conjunct).
\<close>

theorem transmit_loop_drain:
  "(\<forall>st'. transmit_loop st evs = Parked st' \<longrightarrow>
       transmit_loop st (evs @ [Tick]) =
         (if (l_exit st \<or> l_doneChan st \<and> Done \<in> set evs) \<and> 4 \<le> idle_of (l_idleCount st) evs
          then Exited (st'\<lparr>l_idleCount := l_idleCount st' + 1, l_w := fst (Close (l_w st')),
                           l_log := l_log st' @ snd (Close (l_w st'))\<rparr>) []
          else Parked (st'\<lparr>l_idleCount := l_idleCount st' + 1\<rparr>))) \<and>
   (l_exit st \<and> 0 \<le> l_idleCount st \<longrightarrow>
      (\<exists>st' left. transmit_loop st (replicate 5 Tick @ rest) = Exited st' left)) \<and>
   (\<forall>st' left. transmit_loop st evs = Exited st' left \<longrightarrow>
      l_exit st' \<and> 5 \<le> l_idleCount st' \<and> w_conn (l_w st') = None \<and>
      (\<exists>w es. l_w st' = fst (Close w) \<and> l_log st' = es @ snd (Close w))) \<and>
   (\<forall>n w' es. WriteWithRetries TODO (l_w st) (buf_data b) rs = Some (Ret n w' es) \<longrightarrow>
      wrote es = [buf_data b] \<and>
      transmit_loop st (Recv b rs # rest) =
        transmit_loop (st\<lparr>l_idleCount := 0, l_w := w', l_log := l_log st @ es,
                          l_pool := release b (l_pool st)\<rparr>) rest) \<and>
   (WriteWithRetries TODO (l_w st) (buf_data b) rs = None \<longrightarrow>
      transmit_loop st (Recv b rs # rest) = Stuck (st\<lparr>l_idleCount := 0\<rparr>))"
proof -
  have A: "transmit_loop st (evs @ [Tick]) =
         (if (l_exit st \<or> l_doneChan st \<and> Done \<in> set evs) \<and> 4 \<le> idle_of (l_idleCount st) evs
          then Exited (st'\<lparr>l_idleCount := l_idleCount st' + 1, l_w := fst (Close (l_w st')),
                           l_log := l_log st' @ snd (Close (l_w st'))\<rparr>) []
          else Parked (st'\<lparr>l_idleCount := l_idleCount st' + 1\<rparr>))"
    if p: "transmit_loop st evs = Parked st'" for st'
  proof -
    from transmit_loop_Parked [OF p]
    have i: "l_idleCount st' = idle_of (l_idleCount st) evs"
      and e: "l_exit st' = (l_exit st \<or> l_doneChan st \<and> Done \<in> set evs)" by simp_all
    have "transmit_loop st (evs @ [Tick]) = transmit_loop st' [Tick]"
      using p by (rule transmit_loop_append)
    then show ?thesis
      by (simp add: transmit_loop_Tick i [symmetric] e [symmetric])
  qed
  have B: "\<exists>st' left. transmit_loop st (replicate 5 Tick @ rest) = Exited st' left"
    if "l_exit st \<and> 0 \<le> l_idleCount st"
    using that transmit_loop_five_ticks [of st rest] by simp
  have C: "l_exit st' \<and> 5 \<le> l_idleCount st' \<and> w_conn (l_w st') = None \<and>
      (\<exists>w es. l_w st' = fst (Close w) \<and> l_log st' = es @ snd (Close w))"
    if "transmit_loop st evs = Exited st' left" for st' left
    using that by (rule transmit_loop_Exited)
  have D: "wrote es = [buf_data b] \<and>
      transmit_loop st (Recv b rs # rest) =
        transmit_loop (st\<lparr>l_idleCount := 0, l_w := w', l_log := l_log st @ es,
                          l_pool := release b (l_pool st)\<rparr>) rest"
    if "WriteWithRetries TODO (l_w st) (buf_data b) rs = Some (Ret n w' es)" for n w' es
    using WriteWithRetries_wrote [OF that] transmit_loop_Recv [OF that] by simp
  have E: "transmit_loop st (Recv b rs # rest) = Stuck (st\<lparr>l_idleCount := 0\<rparr>)"
    if "WriteWithRetries TODO (l_w st) (buf_data b) rs = None"
    using that by (rule transmit_loop_Recv_stuck)
  show ?thesis
    apply (rule conjI)
     apply (rule allI)
     apply (rule impI)
     apply (erule A)
    apply (rule conjI)
     apply (rule impI)
     apply (erule B)
    apply (rule conjI)
     apply (intro allI impI)
     apply (erule C)
    apply (rule conjI)
     apply (intro allI impI)
     apply (erule D)
    apply (rule impI)
    apply (erule E)
    done
qed

theorem transmit_loop_drain_counterexample:
  "transmit WithCancel 1 [] [''a:1'', ''b:2'', ''c:3''] 1 [Dial_ok 4 1000]
     [Done, Tick, Tick, Tick, Tick] =
     Parked \<lparr>l_w = \<lparr>w_id = 1, w_targets = [''a:1'', ''b:2'', ''c:3''], w_target = ''b:2'',
                    w_targetIdx = 1, w_conn = Some 4, w_lastReconnect = 1000\<rparr>,
             l_exit = True, l_doneChan = False, l_idleCount = 4, l_pool = [],
             l_log = [Dialed ''b:2'']\<rparr> \<and>
   transmit_loop loop0 [Done] = Parked (loop0\<lparr>l_exit := True, l_doneChan := False\<rparr>) \<and>
   transmit_loop loop0 [Done, Tick, Tick, Tick, Tick] =
     Parked (loop0\<lparr>l_exit := True, l_doneChan := False, l_idleCount := 4\<rparr>)"
  by (simp add: transmit_def ConnectWithRetries_def connect_loop.simps(2) index_targets_def
      Close_def Let_def loop0_def transmit_loop_Done transmit_loop_Tick)

theorem transmit_loop_drain_witness:
  "transmit_loop loop0 [Tick, Tick, Tick, Tick, Done] =
     Parked (loop0\<lparr>l_exit := True, l_doneChan := False, l_idleCount := 4\<rparr>) \<and>
   transmit_loop loop0 ([Tick, Tick, Tick, Tick, Done] @ [Tick]) =
     Exited (loop0\<lparr>l_exit := True, l_doneChan := False, l_idleCount := 5,
                   l_w := worker0\<lparr>w_conn := None\<rparr>, l_log := [Closed 4]\<rparr>) [] \<and>
   (l_exit (loop0\<lparr>l_exit := True\<rparr>) \<and> 0 \<le> l_idleCount (loop0\<lparr>l_exit := True\<rparr>)) \<and>
   (\<exists>st' left. transmit_loop (loop0\<lparr>l_exit := True\<rparr>) (replicate 5 Tick @ []) = Exited st' left) \<and>
   w_conn (l_w (loop0\<lparr>l_exit := True, l_doneChan := False, l_idleCount := 5,
                      l_w := worker0\<lparr>w_conn := None\<rparr>, l_log := [Closed 4]\<rparr>)) = None \<and>
   WriteWithRetries TODO (l_w loop0) (buf_data buffer_1MiB) [Round 2000 [] Write_ok] =
     Some (Ret (2, None) worker0 [Deadline 4 (30 * second), Wrote 4 [0x61, 0x0A]]) \<and>
   wrote [Deadline 4 (30 * second), Wrote 4 [0x61, 0x0A]] = [buf_data buffer_1MiB] \<and>
   WriteWithRetries TODO (l_w loop0) (buf_data buffer_1MiB) [] = None \<and>
   transmit_loop loop0 (Recv buffer_1MiB [] # []) = Stuck (loop0\<lparr>l_idleCount := 0\<rparr>)"
proof -
  let ?ex = "loop0\<lparr>l_exit := True, l_doneChan := False, l_idleCount := 5,
                   l_w := worker0\<lparr>w_conn := None\<rparr>, l_log := [Closed 4]\<rparr>"
  have f1: "transmit_loop loop0 [Tick, Tick, Tick, Tick, Done] =
     Parked (loop0\<lparr>l_exit := True, l_doneChan := False, l_idleCount := 4\<rparr>)"
    by (simp add: loop0_def transmit_loop_Done transmit_loop_Tick)
  note t = transmit_loop_drain [where st = loop0 and evs = "[Tick, Tick, Tick, Tick, Done]"]
  from t [THEN conjunct1, THEN spec, THEN mp, OF f1]
  have f2: "transmit_loop loop0 ([Tick, Tick, Tick, Tick, Done] @ [Tick]) = Exited ?ex []"
    by (simp add: loop0_def worker0_def Close_def)
  have f3: "l_exit (loop0\<lparr>l_exit := True\<rparr>) \<and> 0 \<le> l_idleCount (loop0\<lparr>l_exit := True\<rparr>)"
    by (simp add: loop0_def)
  from transmit_loop_drain [where st = "loop0\<lparr>l_exit := True\<rparr>" and rest = "[]",
      THEN conjunct2, THEN conjunct1, THEN mp, OF f3]
  have f4: "\<exists>st' left. transmit_loop (loop0\<lparr>l_exit := True\<rparr>) (replicate 5 Tick @ []) = Exited st' left" .
  from transmit_loop_drain [where st = loop0 and evs = "[Tick, Tick, Tick, Tick, Done] @ [Tick]",
      THEN conjunct2, THEN conjunct2, THEN conjunct1, THEN spec, THEN spec, THEN mp, OF f2]
  have f5: "w_conn (l_w ?ex) = None" by (elim conjE)
  have f6: "WriteWithRetries TODO (l_w loop0) (buf_data buffer_1MiB) [Round 2000 [] Write_ok] =
     Some (Ret (2, None) worker0 [Deadline 4 (30 * second), Wrote 4 [0x61, 0x0A]])"
    by (simp add: loop0_def worker0_def buffer_1MiB_def ConnectIfNeeded_def Write_def
        minute_def second_def)
  from transmit_loop_drain [where st = loop0 and b = buffer_1MiB and rs = "[Round 2000 [] Write_ok]",
      THEN conjunct2, THEN conjunct2, THEN conjunct2, THEN conjunct1,
      THEN spec, THEN spec, THEN spec, THEN mp, OF f6]
  have f7: "wrote [Deadline 4 (30 * second), Wrote 4 [0x61, 0x0A]] = [buf_data buffer_1MiB]"
    by (rule conjunct1)
  have f8: "WriteWithRetries TODO (l_w loop0) (buf_data buffer_1MiB) [] = None"
    by simp
  from transmit_loop_drain [where st = loop0 and b = buffer_1MiB and rs = "[]" and rest = "[]",
      THEN conjunct2, THEN conjunct2, THEN conjunct2, THEN conjunct2, THEN mp, OF f8]
  have f9: "transmit_loop loop0 (Recv buffer_1MiB [] # []) = Stuck (loop0\<lparr>l_idleCount := 0\<rparr>)" .
  from f1 f2 f3 [THEN conjunct1] f3 [THEN conjunct2] f4 f5 f6 f7 f8 f9 show ?thesis
    by (intro conjI)
qed

lemma release_reset: "pool_reset p \<Longrightarrow> pool_reset (release b p)"
  by (simp add: release_def pool_reset_def bufPool_Put_def buf_Reset_def)

text \<open>
  Claim C7, as the code has it. After a worker has transmitted a record, the record's
  buffer goes back to the pool if and only if its capacity is at most 1 MiB (1048576
  bytes, the bound included); a buffer that goes back has length zero and its capacity
  unchanged, so the pool keeps holding reset buffers only; a buffer whose capacity exceeds
  1 MiB is not pooled.
\<close>

theorem transmit_release:
  assumes "WriteWithRetries TODO (l_w st) (buf_data b) rs = Some (Ret n w' es)"
  shows "\<exists>st'. transmit_loop st [Recv b rs] = Parked st' \<and>
           l_pool st' = (if buf_cap b \<le> 1048576
                         then \<lparr>buf_data = [], buf_cap = buf_cap b\<rparr> # l_pool st
                         else l_pool st) \<and>
           (pool_reset (l_pool st) \<longrightarrow> pool_reset (l_pool st'))"
proof -
  let ?st' = "st\<lparr>l_idleCount := 0, l_w := w', l_log := l_log st @ es,
                  l_pool := release b (l_pool st)\<rparr>"
  have "transmit_loop st [Recv b rs] = Parked ?st'"
    by (simp add: transmit_loop_Recv [OF assms])
  moreover have "l_pool ?st' = (if buf_cap b \<le> 1048576
                         then \<lparr>buf_data = [], buf_cap = buf_cap b\<rparr> # l_pool st
                         else l_pool st)"
    by (simp add: release_def buf_Cap_def buf_Reset_def bufPool_Put_def)
  moreover have "pool_reset (l_pool st) \<longrightarrow> pool_reset (l_pool ?st')"
    by (simp add: release_reset)
  ultimately show ?thesis by (intro exI conjI)
qed

theorem transmit_release_counterexample:
  "transmit_loop loop0 [Recv buffer_1MiB [Round 2000 [] Write_ok]] =
     Parked (loop0\<lparr>l_log := [Deadline 4 (30 * second), Wrote 4 [0x61, 0x0A]],
                   l_pool := [\<lparr>buf_data = [], buf_cap = 1048576\<rparr>]\<rparr>) \<and>
   \<not> buf_Cap buffer_1MiB < 1024 * 1024"
  by (simp add: loop0_def worker0_def buffer_1MiB_def ConnectIfNeeded_def Write_def
      minute_def second_def transmit_loop.simps(4) release_def buf_Cap_def buf_Reset_def
      bufPool_Put_def)

theorem transmit_release_witness:
  "WriteWithRetries TODO (l_w loop0) (buf_data \<lparr>buf_data = [0x61, 0x0A], buf_cap = 2000000\<rparr>)
     [Round 2000 [] Write_ok] =
     Some (Ret (2, None) worker0 [Deadline 4 (30 * second), Wrote 4 [0x61, 0x0A]]) \<and>
   pool_reset (l_pool loop0) \<and>
   (\<exists>st'. transmit_loop loop0 [Recv \<lparr>buf_data = [0x61, 0x0A], buf_cap = 2000000\<rparr>
                                 [Round 2000 [] Write_ok]] = Parked st' \<and>
      l_pool st' = l_pool loop0 \<and> pool_reset (l_pool st'))"
proof -
  let ?b = "\<lparr>buf_data = [0x61, 0x0A], buf_cap = 2000000\<rparr>"
  have run: "WriteWithRetries TODO (l_w loop0) (buf_data ?b) [Round 2000 [] Write_ok] =
     Some (Ret (2, None) worker0 [Deadline 4 (30 * second), Wrote 4 [0x61, 0x0A]])"
    by (simp add: loop0_def worker0_def ConnectIfNeeded_def Write_def minute_def second_def)
  have p: "pool_reset (l_pool loop0)"
    by (simp add: loop0_def pool_reset_def)
  from transmit_release [OF run] obtain st' where
    l: "transmit_loop loop0 [Recv ?b [Round 2000 [] Write_ok]] = Parked st'"
    and q: "l_pool st' = (if buf_cap ?b \<le> 1048576
                         then \<lparr>buf_data = [], buf_cap = buf_cap ?b\<rparr> # l_pool loop0
                         else l_pool loop0)"
    and r: "pool_reset (l_pool loop0) \<longrightarrow> pool_reset (l_pool st')"
    by (elim exE conjE)
  from q have q': "l_pool st' = l_pool loop0" by simp
  from r p have r': "pool_reset (l_pool st')" by (rule mp)
  from l q' r' have "\<exists>st'. transmit_loop loop0 [Recv ?b [Round 2000 [] Write_ok]] = Parked st' \<and>
      l_pool st' = l_pool loop0 \<and> pool_reset (l_pool st')"
    by (intro exI [of _ st'] conjI)
  with run p show ?thesis by (intro conjI)
qed

section \<open>Properties of the coordinator\<close>

lemma wrap64_id: "- (2 ^ 63) \<le> x \<Longrightarrow> x < 2 ^ 63 \<Longrightarrow> wrap64 x = x"
  by (simp add: wrap64_def)

lemma nth_upto_0: "i < nat n \<Longrightarrow> [0 .. n - 1] ! i = int i"
  by (simp add: nth_upto)

text \<open>
  Claim C8, as the code has it. For \<open>C \<ge> 0\<close> connections per target and \<open>T\<close> targets such
  that the runtime accepts a channel of \<open>C * T * 2\<close> slots (their \<open>8 * (C * T * 2)\<close> bytes
  within its bound for a channel), \<^verbatim>\<open>proxy\<close> makes the record queue with capacity exactly
  \<open>C * T * 2\<close>, starts exactly \<open>C * T\<close> workers, and gives the worker of index \<open>i\<close> (counted
  from zero; its id is \<open>i + 1\<close>) the primary target index \<open>i mod T\<close>.
\<close>

theorem proxy_pool_size:
  assumes "0 \<le> c" and "8 * (c * int (length ts) * 2) \<le> limit" and "limit < 2 ^ 64"
  shows "proxy_setup limit ts c = Inr (c * int (length ts) * 2, proxy_workers ts c) \<and>
         int (length (proxy_workers ts c)) = c * int (length ts) \<and>
         (\<forall>i < length (proxy_workers ts c).
             a_target (proxy_workers ts c ! i) = int (i mod length ts) \<and>
             a_worker (proxy_workers ts c ! i) = int i + 1)"
proof -
  let ?n = "c * int (length ts)"
  from assms(1) have n0: "0 \<le> ?n" by simp
  from assms(2,3) have q1: "8 * (?n * 2) < 2 ^ 64" by arith
  then have q2: "?n * 2 < 2 ^ 63" by simp
  with n0 have n1: "?n < 2 ^ 63" by arith
  from n0 n1 have w1: "wrap64 ?n = ?n" by (intro wrap64_id) simp_all
  from n0 q2 have w2: "wrap64 (?n * 2) = ?n * 2" by (intro wrap64_id) simp_all
  have len: "length (proxy_workers ts c) = nat ?n"
    by (simp add: proxy_workers_def w1)
  have A: "int (length (proxy_workers ts c)) = ?n"
    using n0 by (simp add: len)
  have B: "a_target (proxy_workers ts c ! i) = int (i mod length ts) \<and>
             a_worker (proxy_workers ts c ! i) = int i + 1"
    if "i < length (proxy_workers ts c)" for i
  proof -
    from that have i: "i < nat ?n" by (simp add: len)
    then have "i < length [0 .. ?n - 1]" by simp
    then have "proxy_workers ts c ! i =
        \<lparr>a_worker = [0 .. ?n - 1] ! i + 1, a_target = [0 .. ?n - 1] ! i mod int (length ts)\<rparr>"
      by (simp add: proxy_workers_def w1 del: upto.simps)
    with nth_upto_0 [OF i] show ?thesis
      by (simp add: zmod_int)
  qed
  have "makechan limit (?n * 2) = Inr (?n * 2)"
    using n0 q1 assms(2) by (simp add: makechan_def)
  then have C: "proxy_setup limit ts c = Inr (?n * 2, proxy_workers ts c)"
    by (simp add: proxy_setup_def proxy_queue_def w1 w2)
  from A B C show ?thesis by simp
qed

theorem proxy_pool_size_counterexample:
  "proxy_setup (2 ^ 48 - 96) [''a:1''] (2 ^ 61) = Inl Makechan_size \<and>
   proxy (2 ^ 48 - 96) [''a:1''] (2 ^ 61) [] True = Panics Makechan_size \<and>
   proxy_setup (2 ^ 48 - 96) [''a:1''] (- 1) = Inl Makechan_size \<and>
   proxy (2 ^ 48 - 96) [''a:1''] (- 1) [] True = Panics Makechan_size"
  by (simp add: proxy_def proxy_setup_def proxy_queue_def makechan_def wrap64_def)

theorem proxy_pool_size_witness:
  "(0::int) \<le> 4 \<and> 8 * (4 * int (length [''a:1'', ''b:2'', ''c:3'']) * 2) \<le> (2::int) ^ 48 - 96 \<and>
   (2::int) ^ 48 - 96 < 2 ^ 64 \<and>
   proxy_setup (2 ^ 48 - 96) [''a:1'', ''b:2'', ''c:3''] 4 =
     Inr (24, proxy_workers [''a:1'', ''b:2'', ''c:3''] 4) \<and>
   int (length (proxy_workers [''a:1'', ''b:2'', ''c:3''] 4)) = 12 \<and>
   (7 < length (proxy_workers [''a:1'', ''b:2'', ''c:3''] 4) \<and>
    a_target (proxy_workers [''a:1'', ''b:2'', ''c:3''] 4 ! 7) = 1 \<and>
    a_worker (proxy_workers [''a:1'', ''b:2'', ''c:3''] 4 ! 7) = 8)"
proof -
  let ?ts = "[''a:1'', ''b:2'', ''c:3'']"
  have a: "(0::int) \<le> 4" by simp
  have b: "8 * (4 * int (length ?ts) * 2) \<le> (2::int) ^ 48 - 96" by simp
  have l: "(2::int) ^ 48 - 96 < 2 ^ 64" by simp
  note t = proxy_pool_size [OF a b l]
  from t have q: "proxy_setup (2 ^ 48 - 96) ?ts 4 = Inr (24, proxy_workers ?ts 4)" by simp
  from t have len: "int (length (proxy_workers ?ts 4)) = 12" by simp
  then have i: "7 < length (proxy_workers ?ts 4)" by simp
  from t [THEN conjunct2, THEN conjunct2, THEN spec, THEN mp, OF i]
  have w: "a_target (proxy_workers ?ts 4 ! 7) = 1 \<and> a_worker (proxy_workers ?ts 4 ! 7) = 8"
    by simp
  from a b l q len i w show ?thesis by simp
qed

lemma accept_loop_err:
  "accept_loop (map Accept_ok cs @ Accept_err e # rest) = Some (cs, e)"
  by (induction cs) simp_all

lemma proxy_no_error: "proxy limit ts c acc wx \<noteq> Returns (Some e)"
  by (simp add: proxy_def Let_def split: sum.split option.split prod.split)

text \<open>
  Claim C9. \<^verbatim>\<open>listenAndProxy\<close> returns a non-nil error if and only if binding the listen
  address fails (first conjunct). \<^verbatim>\<open>proxy\<close> never returns a non-nil error (second
  conjunct): when the accept loop ends on an error and the workers have returned, the
  caller gets nil (third conjunct).
\<close>

theorem listenAndProxy_error:
  "(listenAndProxy limit l ts c acc wx = Returns (Some e) \<longleftrightarrow> l = Listen_err e) \<and>
   proxy limit ts c acc wx \<noteq> Returns (Some e) \<and>
   (proxy_queue limit ts c = Inr q \<longrightarrow>
      listenAndProxy limit Listen_ok ts c (map Accept_ok cs @ Accept_err e' # rest) True =
        Returns None)"
proof -
  have A: "listenAndProxy limit l ts c acc wx = Returns (Some e) \<longleftrightarrow> l = Listen_err e"
    by (cases l) (simp_all add: listenAndProxy_def proxy_no_error)
  have C: "listenAndProxy limit Listen_ok ts c (map Accept_ok cs @ Accept_err e' # rest) True =
      Returns None"
    if "proxy_queue limit ts c = Inr q"
    using that by (simp add: listenAndProxy_def proxy_def proxy_setup_def accept_loop_err)
  from A proxy_no_error [of limit ts c acc wx e] C show ?thesis by simp
qed

theorem listenAndProxy_error_witness:
  "proxy_queue (2 ^ 48 - 96) [''a:1'', ''b:2''] 4 = Inr 16 \<and>
   listenAndProxy (2 ^ 48 - 96) Listen_ok [''a:1'', ''b:2''] 4
     (map Accept_ok [[Read_ok [0x61, 0x0A], Read_err []]] @ Accept_err ''use of closed network connection'' # [])
     True = Returns None \<and>
   listenAndProxy (2 ^ 48 - 96) (Listen_err ''address already in use'') [''a:1'', ''b:2''] 4 [] False =
     Returns (Some ''address already in use'')"
proof -
  have q: "proxy_queue (2 ^ 48 - 96) [''a:1'', ''b:2''] 4 = Inr 16"
    by (simp add: proxy_queue_def makechan_def wrap64_def)
  note t = listenAndProxy_error [where limit = "2 ^ 48 - 96" and ts = "[''a:1'', ''b:2'']" and c = 4]
  from t [THEN conjunct2, THEN conjunct2, THEN mp, OF q]
  have a: "listenAndProxy (2 ^ 48 - 96) Listen_ok [''a:1'', ''b:2''] 4
     (map Accept_ok [[Read_ok [0x61, 0x0A], Read_err []]] @ Accept_err ''use of closed network connection'' # [])
     True = Returns None" .
  from t [where l = "Listen_err ''address already in use''" and e = "''address already in use''"
      and acc = "[]" and wx = False, THEN conjunct1]
  have b: "listenAndProxy (2 ^ 48 - 96) (Listen_err ''address already in use'') [''a:1'', ''b:2''] 4 [] False =
     Returns (Some ''address already in use'')" by simp
  from q a b show ?thesis by (intro conjI)
qed

end
